theory Spec2Isabelle
  imports Main "HOL-Library.Word" "HOL-Library.Multiset"
begin

section \<open>Memory model of package dlx\<close>

text \<open>
  Elements live in a store addressed by natural numbers.  Address \<open>0\<close> is Go's \<open>nil\<close>,
  address \<open>1\<close> is \<open>&m.h\<close>, the element embedded in the \<open>Matrix\<close> struct, and every
  \<open>&Element{...}\<close> takes the next unused address \<open>fresh\<close>.  Each pointer field of
  \<open>Element\<close> is a function from addresses to addresses.  The field \<open>ematrix\<close> records
  whether \<open>e.matrix\<close> is set (a single matrix is modelled, so a set pointer is this matrix).
\<close>

type_synonym addr = nat

abbreviation nil :: addr where "nil \<equiv> 0"
abbreviation mh :: addr where "mh \<equiv> Suc 0"

text \<open>The dynamic type of \<open>Element.Value\<close>: unset, a \<open>Head{name, size}\<close>, or a bool.\<close>

datatype val = NoValue | HeadVal string "64 word" | BoolVal bool

datatype err = NilDeref | NotHead | OutOfRange

record matrix =
  up :: "addr \<Rightarrow> addr"
  down :: "addr \<Rightarrow> addr"
  left :: "addr \<Rightarrow> addr"
  right :: "addr \<Rightarrow> addr"
  column :: "addr \<Rightarrow> addr"
  ematrix :: "addr \<Rightarrow> bool"
  Value :: "addr \<Rightarrow> val"
  ostack :: "addr list"
  solutions :: "string list list"
  fresh :: addr

text \<open>
  A call either returns (\<open>ok\<close>), panics (\<open>panic\<close>), or runs forever (\<open>None\<close>).
\<close>

type_synonym 'a res = "(err + 'a) option"

definition ok :: "'a \<Rightarrow> 'a res" where
  "ok x = Some (Inr x)"

definition panic :: "err \<Rightarrow> 'a res" where
  "panic e = Some (Inl e)"

definition bindE :: "'a res \<Rightarrow> ('a \<Rightarrow> 'b res) \<Rightarrow> 'b res" where
  "bindE r f = Option.bind r (\<lambda>v. case v of Inl e \<Rightarrow> Some (Inl e) | Inr x \<Rightarrow> f x)"

text \<open>Stores through a pointer: a nil pointer panics.\<close>

definition st_up :: "addr \<Rightarrow> addr \<Rightarrow> matrix \<Rightarrow> matrix res" where
  "st_up p v m = (if p = nil then panic NilDeref else ok (m\<lparr>up := (up m)(p := v)\<rparr>))"

definition st_down :: "addr \<Rightarrow> addr \<Rightarrow> matrix \<Rightarrow> matrix res" where
  "st_down p v m = (if p = nil then panic NilDeref else ok (m\<lparr>down := (down m)(p := v)\<rparr>))"

definition st_left :: "addr \<Rightarrow> addr \<Rightarrow> matrix \<Rightarrow> matrix res" where
  "st_left p v m = (if p = nil then panic NilDeref else ok (m\<lparr>left := (left m)(p := v)\<rparr>))"

definition st_right :: "addr \<Rightarrow> addr \<Rightarrow> matrix \<Rightarrow> matrix res" where
  "st_right p v m = (if p = nil then panic NilDeref else ok (m\<lparr>right := (right m)(p := v)\<rparr>))"

text \<open>
  \<open>p.Value = Head{p.Value.(Head).name, p.Value.(Head).size + d}\<close>: the pointer must not be
  nil and the value must be a \<open>Head\<close>; the size is a \<open>uint64\<close> and wraps.
\<close>

definition add_size :: "addr \<Rightarrow> 64 word \<Rightarrow> matrix \<Rightarrow> matrix res" where
  "add_size p d m =
     (if p = nil then panic NilDeref
      else case Value m p of
             HeadVal n s \<Rightarrow> ok (m\<lparr>Value := (Value m)(p := HeadVal n (s + d))\<rparr>)
           | _ \<Rightarrow> panic NotHead)"

section \<open>Construction\<close>

text \<open>The zero value of \<open>Matrix\<close>.\<close>

definition zero_Matrix :: matrix where
  "zero_Matrix = \<lparr>up = (\<lambda>_. nil), down = (\<lambda>_. nil), left = (\<lambda>_. nil), right = (\<lambda>_. nil),
     column = (\<lambda>_. nil), ematrix = (\<lambda>_. False), Value = (\<lambda>_. NoValue),
     ostack = [], solutions = [], fresh = 2\<rparr>"

definition Init :: "matrix \<Rightarrow> matrix" where
  "Init m = m\<lparr>up := (up m)(mh := mh), down := (down m)(mh := mh), left := (left m)(mh := mh),
     right := (right m)(mh := mh), column := (column m)(mh := mh),
     ostack := [], solutions := []\<rparr>"

definition New :: matrix where
  "New = Init zero_Matrix"

definition Head :: "matrix \<Rightarrow> addr" where
  "Head m = (if right m mh = mh then nil else right m mh)"

definition lazyInit :: "matrix \<Rightarrow> matrix" where
  "lazyInit m = (if right m mh = nil then Init m else m)"

text \<open>\<open>&Element{Value: v}\<close>: a new element, every pointer nil.\<close>

definition alloc :: "val \<Rightarrow> matrix \<Rightarrow> addr \<times> matrix" where
  "alloc v m = (fresh m,
     m\<lparr>up := (up m)(fresh m := nil), down := (down m)(fresh m := nil),
       left := (left m)(fresh m := nil), right := (right m)(fresh m := nil),
       column := (column m)(fresh m := nil), ematrix := (ematrix m)(fresh m := False),
       Value := (Value m)(fresh m := v), fresh := Suc (fresh m)\<rparr>)"

definition insertHead :: "addr \<Rightarrow> addr \<Rightarrow> matrix \<Rightarrow> (addr \<times> matrix) res" where
  "insertHead e at m =
     (if at = nil then panic NilDeref
      else let n = right m at in
        bindE (st_right at e m) (\<lambda>m.
        bindE (st_left e at m) (\<lambda>m.
        bindE (st_right e n m) (\<lambda>m.
        bindE (st_left n e m) (\<lambda>m.
        bindE (st_up e e m) (\<lambda>m.
        bindE (st_down e e m) (\<lambda>m.
        ok (e, m\<lparr>ematrix := (ematrix m)(e := True), column := (column m)(e := e)\<rparr>))))))))"

definition insertHeadValue :: "val \<Rightarrow> addr \<Rightarrow> matrix \<Rightarrow> (addr \<times> matrix) res" where
  "insertHeadValue v at m = (case alloc v m of (e, m') \<Rightarrow> insertHead e at m')"

definition PushHead :: "string \<Rightarrow> matrix \<Rightarrow> (addr \<times> matrix) res" where
  "PushHead name m = (let m' = lazyInit m in insertHeadValue (HeadVal name 0) (left m' mh) m')"

definition insertItem :: "addr \<Rightarrow> addr \<Rightarrow> addr \<Rightarrow> matrix \<Rightarrow> (addr \<times> matrix) res" where
  "insertItem e atR atC m =
     bindE (if atR = nil
            then bindE (st_left e e m) (st_right e e)
            else let n = right m atR in
              bindE (st_right atR e m) (\<lambda>m.
              bindE (st_left e atR m) (\<lambda>m.
              bindE (st_right e n m) (st_left n e)))) (\<lambda>m.
     if atC = nil then panic NilDeref
     else let ch = down m atC in
       bindE (st_down atC e m) (\<lambda>m.
       bindE (st_up e atC m) (\<lambda>m.
       bindE (st_down e ch m) (\<lambda>m.
       bindE (st_up ch e m) (\<lambda>m.
       bindE (add_size ch 1
                (m\<lparr>ematrix := (ematrix m)(e := True), column := (column m)(e := ch)\<rparr>))
         (\<lambda>m. ok (e, m)))))))"

definition PushItem :: "addr \<Rightarrow> addr \<Rightarrow> matrix \<Rightarrow> (addr \<times> matrix) res" where
  "PushItem row colHead m =
     (case alloc (BoolVal True) m of (e, m') \<Rightarrow>
        if colHead = nil then panic NilDeref else insertItem e row (up m' colHead) m')"

section \<open>Element accessors\<close>

definition Up :: "addr \<Rightarrow> matrix \<Rightarrow> addr res" where
  "Up e m = (if e = nil then panic NilDeref
             else ok (if ematrix m e \<and> up m e \<noteq> mh then up m e else nil))"

definition Down :: "addr \<Rightarrow> matrix \<Rightarrow> addr res" where
  "Down e m = (if e = nil then panic NilDeref
               else ok (if ematrix m e \<and> down m e \<noteq> mh then down m e else nil))"

definition Left :: "addr \<Rightarrow> matrix \<Rightarrow> addr res" where
  "Left e m = (if e = nil then panic NilDeref
               else ok (if ematrix m e \<and> left m e \<noteq> mh then left m e else nil))"

definition Right :: "addr \<Rightarrow> matrix \<Rightarrow> addr res" where
  "Right e m = (if e = nil then panic NilDeref
                else ok (if ematrix m e \<and> right m e \<noteq> mh then right m e else nil))"

lemma bindE_mono [partial_function_mono]:
  assumes "mono_option B" and "\<And>y. mono_option (\<lambda>f. C y f)"
  shows "mono_option (\<lambda>f. bindE (B f) (\<lambda>y. C y f))"
  unfolding bindE_def
proof (rule bind_mono [OF assms(1)])
  fix v :: "err + 'c"
  show "mono_option (\<lambda>f. case v of Inl e \<Rightarrow> Some (Inl e) | Inr x \<Rightarrow> C x f)"
    by (cases v) (simp_all add: assms(2) option.const_mono)
qed

section \<open>Column selection\<close>

text \<open>The loop of \<open>getColumn\<close>, at element \<open>ce\<close> with the running minimum \<open>(c, s)\<close>.\<close>

partial_function (option) getColumn_loop ::
  "addr \<Rightarrow> addr \<Rightarrow> 64 word \<Rightarrow> matrix \<Rightarrow> addr res" where
  "getColumn_loop ce c s m =
     (if ce = nil then ok c
      else case Value m ce of
             HeadVal n ces \<Rightarrow>
               bindE (Right ce m) (\<lambda>ce'.
                 if ces < s then getColumn_loop ce' ce ces m else getColumn_loop ce' c s m)
           | _ \<Rightarrow> panic NotHead)"

definition getColumn :: "matrix \<Rightarrow> addr res" where
  "getColumn m = getColumn_loop (Head m) nil 18446744073709551615 m"

section \<open>Cover and uncover\<close>

text \<open>The body of the inner loop of \<open>cover\<close>, at item \<open>j\<close>.\<close>

definition cover_item :: "addr \<Rightarrow> matrix \<Rightarrow> matrix res" where
  "cover_item j m =
     (if j = nil then panic NilDeref
      else bindE (st_up (down m j) (up m j) m) (\<lambda>m.
           bindE (st_down (up m j) (down m j) m) (\<lambda>m.
           add_size (column m j) (- 1) m)))"

partial_function (option) cover_row :: "addr \<Rightarrow> addr \<Rightarrow> matrix \<Rightarrow> matrix res" where
  "cover_row i j m =
     (if j = i then ok m
      else bindE (cover_item j m) (\<lambda>m. bindE (Right j m) (\<lambda>j'. cover_row i j' m)))"

partial_function (option) cover_col :: "addr \<Rightarrow> addr \<Rightarrow> matrix \<Rightarrow> matrix res" where
  "cover_col c i m =
     (if i = c then ok m
      else bindE (Right i m) (\<lambda>j. bindE (cover_row i j m) (\<lambda>m.
           bindE (Down i m) (\<lambda>i'. cover_col c i' m))))"

definition cover :: "addr \<Rightarrow> matrix \<Rightarrow> matrix res" where
  "cover c m =
     (if c = nil then panic NilDeref
      else bindE (st_left (right m c) (left m c) m) (\<lambda>m.
           bindE (st_right (left m c) (right m c) m) (\<lambda>m.
           bindE (Down c m) (\<lambda>i. cover_col c i m))))"

text \<open>The body of the inner loop of \<open>uncover\<close>, at item \<open>j\<close>.\<close>

definition uncover_item :: "addr \<Rightarrow> matrix \<Rightarrow> matrix res" where
  "uncover_item j m =
     (if j = nil then panic NilDeref
      else bindE (add_size (column m j) 1 m) (\<lambda>m.
           bindE (st_up (down m j) j m) (\<lambda>m.
           st_down (up m j) j m)))"

partial_function (option) uncover_row :: "addr \<Rightarrow> addr \<Rightarrow> matrix \<Rightarrow> matrix res" where
  "uncover_row i j m =
     (if j = i then ok m
      else bindE (uncover_item j m) (\<lambda>m. bindE (Left j m) (\<lambda>j'. uncover_row i j' m)))"

partial_function (option) uncover_col :: "addr \<Rightarrow> addr \<Rightarrow> matrix \<Rightarrow> matrix res" where
  "uncover_col c i m =
     (if i = c then ok m
      else bindE (Left i m) (\<lambda>j. bindE (uncover_row i j m) (\<lambda>m.
           bindE (Up i m) (\<lambda>i'. uncover_col c i' m))))"

definition uncover :: "addr \<Rightarrow> matrix \<Rightarrow> matrix res" where
  "uncover c m =
     bindE (Up c m) (\<lambda>i. bindE (uncover_col c i m) (\<lambda>m.
     bindE (st_left (right m c) c m) (\<lambda>m.
     st_right (left m c) c m)))"

section \<open>Search\<close>

text \<open>The string of one chosen row: the loop over \<open>e\<close> that appends the other names.\<close>

partial_function (option) rowStr_loop ::
  "addr \<Rightarrow> addr \<Rightarrow> string \<Rightarrow> matrix \<Rightarrow> string res" where
  "rowStr_loop r e rowStr m =
     (if e = r then ok rowStr
      else if e = nil \<or> column m e = nil then panic NilDeref
      else case Value m (column m e) of
             HeadVal n s \<Rightarrow>
               bindE (Right e m) (\<lambda>e'. rowStr_loop r e' (rowStr @ '' '' @ n) m)
           | _ \<Rightarrow> panic NotHead)"

definition rowStr :: "addr \<Rightarrow> matrix \<Rightarrow> string res" where
  "rowStr r m =
     (if r = nil \<or> column m r = nil then panic NilDeref
      else case Value m (column m r) of
             HeadVal n s \<Rightarrow> bindE (Right r m) (\<lambda>e. rowStr_loop r e n m)
           | _ \<Rightarrow> panic NotHead)"

fun solStr :: "addr list \<Rightarrow> matrix \<Rightarrow> string list res" where
  "solStr [] m = ok []"
| "solStr (r # rs) m =
     bindE (rowStr r m) (\<lambda>s. bindE (solStr rs m) (\<lambda>ss. ok (s # ss)))"

definition record_solution :: "matrix \<Rightarrow> matrix res" where
  "record_solution m =
     bindE (solStr (ostack m) m) (\<lambda>ss. ok (m\<lparr>solutions := solutions m @ [ss]\<rparr>))"

text \<open>\<open>for j := r.Right(); j != r; j = j.Right() { m.cover(j.column) }\<close>\<close>

partial_function (option) cover_others :: "addr \<Rightarrow> addr \<Rightarrow> matrix \<Rightarrow> matrix res" where
  "cover_others r j m =
     (if j = r then ok m
      else if j = nil then panic NilDeref
      else bindE (cover (column m j) m) (\<lambda>m.
           bindE (Right j m) (\<lambda>j'. cover_others r j' m)))"

text \<open>\<open>for j := r.Left(); j != r; j = j.Left() { m.uncover(j.column) }\<close>\<close>

partial_function (option) uncover_others :: "addr \<Rightarrow> addr \<Rightarrow> matrix \<Rightarrow> matrix res" where
  "uncover_others r j m =
     (if j = r then ok m
      else if j = nil then panic NilDeref
      else bindE (uncover (column m j) m) (\<lambda>m.
           bindE (Left j m) (\<lambda>j'. uncover_others r j' m)))"

text \<open>
  \<open>search\<close> and its loop over the rows of the chosen column are one recursion.  The first
  argument is \<open>None\<close> at the entry of \<open>search(k)\<close> and \<open>Some (c, r)\<close> at the test
  \<open>r != c\<close> of the loop, with the current values of the variables \<open>c\<close> and \<open>r\<close>.
\<close>

partial_function (option) search_at ::
  "(addr \<times> addr) option \<Rightarrow> nat \<Rightarrow> matrix \<Rightarrow> matrix res" where
  "search_at pos k m =
     (if pos = None then
        (if Head m = nil then record_solution m
         else bindE (getColumn m) (\<lambda>c.
              bindE (cover c m) (\<lambda>m.
              bindE (Down c m) (\<lambda>r. search_at (Some (c, r)) k m))))
      else
        (if snd (the pos) = fst (the pos) then uncover (fst (the pos)) m
         else bindE (Right (snd (the pos)) (m\<lparr>ostack := ostack m @ [snd (the pos)]\<rparr>)) (\<lambda>j.
              bindE (cover_others (snd (the pos)) j
                       (m\<lparr>ostack := ostack m @ [snd (the pos)]\<rparr>)) (\<lambda>m.
              bindE (search_at None (k + 1) m) (\<lambda>m.
                if length (ostack m) \<le> k then panic OutOfRange
                else let r = ostack m ! k;
                         m' = m\<lparr>ostack := butlast ((ostack m)[k := nil])\<rparr>
                     in if r = nil then panic NilDeref
                        else bindE (Left r m') (\<lambda>j.
                             bindE (uncover_others r j m') (\<lambda>m.
                             bindE (Down r m) (\<lambda>r'.
                               search_at (Some (column m' r, r')) k m))))))))"

definition search :: "nat \<Rightarrow> matrix \<Rightarrow> matrix res" where
  "search k m = search_at None k m"

definition Solve :: "matrix \<Rightarrow> (string list list \<times> matrix) res" where
  "Solve m = bindE (search 0 m) (\<lambda>m. ok (solutions m, m))"

section \<open>Sequences of API calls\<close>

text \<open>
  A caller's sequence of calls on one matrix.  \<open>run\<close> performs them in order and collects
  what each call returned: the element of \<open>PushHead\<close> and \<open>PushItem\<close>, the solutions of
  \<open>Solve\<close>.
\<close>

datatype op = OpPushHead string | OpPushItem addr addr | OpSolve

datatype ret = RetElem addr | RetSols "string list list"

definition call :: "op \<Rightarrow> matrix \<Rightarrow> (ret \<times> matrix) res" where
  "call c m = (case c of
      OpPushHead name \<Rightarrow> bindE (PushHead name m) (\<lambda>(e, m'). ok (RetElem e, m'))
    | OpPushItem row colHead \<Rightarrow> bindE (PushItem row colHead m) (\<lambda>(e, m'). ok (RetElem e, m'))
    | OpSolve \<Rightarrow> bindE (Solve m) (\<lambda>(s, m'). ok (RetSols s, m')))"

fun run :: "op list \<Rightarrow> matrix \<Rightarrow> (ret list \<times> matrix) res" where
  "run [] m = ok ([], m)"
| "run (c # cs) m =
     bindE (call c m) (\<lambda>(r, m'). bindE (run cs m') (\<lambda>(rs, m''). ok (r # rs, m'')))"

text \<open>The values a call returned, and the matrix it left.\<close>

definition returned :: "('a \<times> matrix) res \<Rightarrow> 'a res" where
  "returned r = bindE r (\<lambda>(x, m). ok x)"

definition final :: "('a \<times> matrix) res \<Rightarrow> matrix res" where
  "final r = bindE r (\<lambda>(x, m). ok m)"

section \<open>Rings and lists\<close>

text \<open>
  \<open>path f x xs y\<close>: following the pointer \<open>f\<close> from \<open>x\<close> visits exactly \<open>xs\<close> and arrives
  at \<open>y\<close>.  \<open>walk\<close> computes that list, giving up after \<open>n\<close> steps.
\<close>

primrec path :: "(addr \<Rightarrow> addr) \<Rightarrow> addr \<Rightarrow> addr list \<Rightarrow> addr \<Rightarrow> bool" where
  "path f x [] y = (x = y)"
| "path f x (a # as) y = (x = a \<and> path f (f a) as y)"

fun walk :: "(addr \<Rightarrow> addr) \<Rightarrow> nat \<Rightarrow> addr \<Rightarrow> addr \<Rightarrow> addr list option" where
  "walk f 0 x y = (if x = y then Some [] else None)"
| "walk f (Suc n) x y = (if x = y then Some [] else map_option ((#) x) (walk f n (f x) y))"

definition hlist :: "matrix \<Rightarrow> addr list option" where
  "hlist m = walk (right m) (fresh m) (right m mh) mh"

definition items :: "matrix \<Rightarrow> addr \<Rightarrow> addr list option" where
  "items m c = walk (down m) (fresh m) (down m c) c"

definition others :: "matrix \<Rightarrow> addr \<Rightarrow> addr list option" where
  "others m r = walk (right m) (fresh m) (right m r) r"

definition is_head :: "matrix \<Rightarrow> addr \<Rightarrow> bool" where
  "is_head m x = (case Value m x of HeadVal n s \<Rightarrow> True | _ \<Rightarrow> False)"

definition name_of :: "matrix \<Rightarrow> addr \<Rightarrow> string" where
  "name_of m c = (case Value m c of HeadVal n s \<Rightarrow> n | _ \<Rightarrow> [])"

definition size_of :: "matrix \<Rightarrow> addr \<Rightarrow> 64 word" where
  "size_of m c = (case Value m c of HeadVal n s \<Rightarrow> s | _ \<Rightarrow> 0)"

fun scan :: "matrix \<Rightarrow> addr list \<Rightarrow> addr \<Rightarrow> 64 word \<Rightarrow> addr" where
  "scan m [] c s = c"
| "scan m (x # xs) c s = (if size_of m x < s then scan m xs x (size_of m x) else scan m xs c s)"

fun join_names :: "string list \<Rightarrow> string" where
  "join_names [] = []"
| "join_names (n # ns) = n @ concat (map ((@) '' '') ns)"

definition row_string :: "matrix \<Rightarrow> addr \<Rightarrow> string" where
  "row_string m r =
     join_names (map (\<lambda>e. name_of m (column m e)) (r # (case others m r of Some xs \<Rightarrow> xs | None \<Rightarrow> [])))"

definition row_ok :: "matrix \<Rightarrow> addr \<Rightarrow> bool" where
  "row_ok m r = (case others m r of None \<Rightarrow> False
     | Some xs \<Rightarrow> list_all (\<lambda>e. e \<noteq> nil \<and> ematrix m e \<and> right m e \<noteq> mh \<and>
                               column m e \<noteq> nil \<and> is_head m (column m e)) (r # xs))"


definition after :: "matrix res \<Rightarrow> matrix" where
  "after r = (case r of Some (Inr m) \<Rightarrow> m | _ \<Rightarrow> zero_Matrix)"

definition built :: "op list \<Rightarrow> matrix" where
  "built cs = after (final (run cs New))"

text \<open>Example matrices, built through the API.\<close>

definition ex_AB :: matrix where
  "ex_AB = built [OpPushHead ''A'', OpPushHead ''B'', OpPushItem 0 2, OpPushItem 4 3]"


section \<open>Well-formed matrices\<close>

text \<open>
  Elements created by \<open>PushHead\<close> and \<open>PushItem\<close> have the addresses \<open>2, ..., fresh - 1\<close>.
  A header carries a \<open>Head\<close>, an item carries \<open>true\<close>.
\<close>

definition node :: "matrix \<Rightarrow> addr \<Rightarrow> bool" where
  "node m x = (2 \<le> x \<and> x < fresh m)"

definition is_item :: "matrix \<Rightarrow> addr \<Rightarrow> bool" where
  "is_item m x = (Value m x = BoolVal True)"

definition hptr :: "matrix \<Rightarrow> addr \<Rightarrow> bool" where
  "hptr m p = (p = mh \<or> node m p \<and> is_head m p)"

definition iptr :: "matrix \<Rightarrow> addr \<Rightarrow> bool" where
  "iptr m p = (node m p \<and> is_item m p)"

definition sym_h :: "matrix \<Rightarrow> addr \<Rightarrow> bool" where
  "sym_h m x = (left m (right m x) = x \<and> right m (left m x) = x)"

definition sym_v :: "matrix \<Rightarrow> addr \<Rightarrow> bool" where
  "sym_v m x = (up m (down m x) = x \<and> down m (up m x) = x)"

text \<open>
  The pointers of one element stay inside the matrix and respect the two kinds: the vertical
  neighbours of an element belong to its column; the horizontal neighbours of a header are
  headers or the master element; the horizontal neighbours of an item are items, linked to
  it in both directions, and its column is a header.
\<close>

definition elem_ok :: "matrix \<Rightarrow> addr \<Rightarrow> bool" where
  "elem_ok m x =
     (ematrix m x \<and> node m (up m x) \<and> node m (down m x) \<and>
      column m (up m x) = column m x \<and> column m (down m x) = column m x \<and>
      (if is_head m x then column m x = x \<and> hptr m (left m x) \<and> hptr m (right m x)
       else is_item m x \<and> node m (column m x) \<and> is_head m (column m x) \<and>
            iptr m (left m x) \<and> iptr m (right m x) \<and> sym_h m x))"

definition inv_k :: "matrix \<Rightarrow> bool" where
  "inv_k m =
     (2 \<le> fresh m \<and> fresh m < 2 ^ 64 \<and> Value m mh = NoValue \<and>
      hptr m (left m mh) \<and> hptr m (right m mh) \<and> list_all (elem_ok m) [2..<fresh m])"

text \<open>The header ring: the live headers, from the master element rightwards.\<close>

definition hring :: "matrix \<Rightarrow> bool" where
  "hring m = (case hlist m of None \<Rightarrow> False | Some L \<Rightarrow> list_all (sym_h m) (mh # L))"

definition live :: "matrix \<Rightarrow> addr \<Rightarrow> bool" where
  "live m c = (case hlist m of None \<Rightarrow> False | Some L \<Rightarrow> c \<in> set L)"

text \<open>The vertical ring of a header: its linked items, and its size counts them.\<close>

definition vring :: "matrix \<Rightarrow> addr \<Rightarrow> bool" where
  "vring m c = (case items m c of None \<Rightarrow> False
     | Some Is \<Rightarrow> list_all (sym_v m) (c # Is) \<and> size_of m c = of_nat (length Is))"

definition vrings :: "matrix \<Rightarrow> bool" where
  "vrings m = list_all (\<lambda>c. is_head m c \<longrightarrow> vring m c) [2..<fresh m]"

text \<open>The row of an item is a ring, and no two of its elements share a column.\<close>

definition row :: "matrix \<Rightarrow> addr \<Rightarrow> bool" where
  "row m x = (case others m x of None \<Rightarrow> False
     | Some xs \<Rightarrow> distinct (map (column m) (x # xs)))"

definition rows :: "matrix \<Rightarrow> bool" where
  "rows m = list_all (\<lambda>x. is_item m x \<longrightarrow> row m x) [2..<fresh m]"

text \<open>\<open>item_in m j\<close>: the item \<open>j\<close> is linked into the vertical ring of its column.\<close>

definition item_in :: "matrix \<Rightarrow> addr \<Rightarrow> bool" where
  "item_in m j = (case items m (column m j) of None \<Rightarrow> False | Some Is \<Rightarrow> j \<in> set Is)"

text \<open>
  Every item linked under a live header belongs to a row all of whose elements are linked
  under live headers.
\<close>

definition row_active :: "matrix \<Rightarrow> addr list \<Rightarrow> addr \<Rightarrow> bool" where
  "row_active m L i = (case others m i of None \<Rightarrow> False
     | Some Js \<Rightarrow> list_all (\<lambda>j. column m j \<in> set L \<and> item_in m j) Js)"

definition active :: "matrix \<Rightarrow> bool" where
  "active m = (case hlist m of None \<Rightarrow> False
     | Some L \<Rightarrow> list_all (\<lambda>c. case items m c of None \<Rightarrow> False
                               | Some Is \<Rightarrow> list_all (row_active m L) Is) L)"

definition wf :: "matrix \<Rightarrow> bool" where
  "wf m = (inv_k m \<and> hring m \<and> vrings m \<and> rows m \<and> active m)"

text \<open>The effect of the loop bodies and of the header statements, as state updates.\<close>

definition unlink_item :: "addr \<Rightarrow> matrix \<Rightarrow> matrix" where
  "unlink_item j m =
     m\<lparr>up := (up m)(down m j := up m j), down := (down m)(up m j := down m j),
       Value := (Value m)(column m j :=
                  HeadVal (name_of m (column m j)) (size_of m (column m j) - 1))\<rparr>"

definition unlink_head :: "addr \<Rightarrow> matrix \<Rightarrow> matrix" where
  "unlink_head c m =
     m\<lparr>left := (left m)(right m c := left m c), right := (right m)(left m c := right m c)\<rparr>"

definition frame :: "string list list \<Rightarrow> addr list \<Rightarrow> matrix \<Rightarrow> matrix" where
  "frame s os m = m\<lparr>solutions := s, ostack := os\<rparr>"

text \<open>What \<open>cover\<close> and \<open>uncover\<close> never change.\<close>

definition same_static :: "matrix \<Rightarrow> matrix \<Rightarrow> bool" where
  "same_static m m' =
     (left m' = left m \<and> right m' = right m \<and> column m' = column m \<and>
      ematrix m' = ematrix m \<and> fresh m' = fresh m \<and> ostack m' = ostack m \<and>
      solutions m' = solutions m \<and>
      (\<forall>x. is_head m' x = is_head m x) \<and> (\<forall>x. is_item m' x = is_item m x) \<and>
      (\<forall>x. name_of m' x = name_of m x))"

text \<open>The other elements of the row of an item, as a set.\<close>

definition others_set :: "matrix \<Rightarrow> addr \<Rightarrow> addr set" where
  "others_set m i = (case others m i of None \<Rightarrow> {} | Some Js \<Rightarrow> set Js)"

text \<open>What \<open>cover\<close> and \<open>uncover\<close> of a header never change.\<close>

definition same_core :: "matrix \<Rightarrow> matrix \<Rightarrow> bool" where
  "same_core m m' =
     (column m' = column m \<and> ematrix m' = ematrix m \<and> fresh m' = fresh m \<and>
      ostack m' = ostack m \<and> solutions m' = solutions m \<and>
      (\<forall>x. is_head m' x = is_head m x) \<and> (\<forall>x. is_item m' x = is_item m x) \<and>
      (\<forall>x. name_of m' x = name_of m x) \<and>
      (\<forall>x. iptr m x \<longrightarrow> left m' x = left m x \<and> right m' x = right m x))"

text \<open>
  The columns of the elements of a row, and what it means for a list of strings to be the
  strings of the chosen rows \<open>os\<close> followed by rows whose columns are exactly the headers \<open>L\<close>,
  each once.
\<close>

definition row_cols :: "matrix \<Rightarrow> addr \<Rightarrow> addr list" where
  "row_cols m r = map (column m) (r # (case others m r of Some xs \<Rightarrow> xs | None \<Rightarrow> []))"

definition solution_for :: "matrix \<Rightarrow> addr list \<Rightarrow> addr list \<Rightarrow> string list \<Rightarrow> bool" where
  "solution_for m os L sol =
     (\<exists>rs. sol = map (row_string m) (os @ rs) \<and> (\<forall>r\<in>set rs. iptr m r) \<and>
           mset (concat (map (row_cols m) rs)) = mset L)"

section \<open>Construction of well-formed matrices\<close>

text \<open>
  After construction, before any search, every header is in the header ring and every item
  is linked into the ring of its column.
\<close>

definition full :: "matrix \<Rightarrow> bool" where
  "full m = (case hlist m of None \<Rightarrow> False
     | Some L \<Rightarrow> list_all (\<lambda>x. (is_head m x \<longrightarrow> x \<in> set L) \<and> (is_item m x \<longrightarrow> item_in m x))
                   [2..<fresh m])"

text \<open>
  \<open>wfc\<close>: what construction guarantees whatever the rows look like.
  \<open>wf0\<close>: in addition no row has two elements in one column.
\<close>

definition wfc :: "matrix \<Rightarrow> bool" where
  "wfc m = (inv_k m \<and> hring m \<and> vrings m \<and> full m)"

definition wf0 :: "matrix \<Rightarrow> bool" where
  "wf0 m = (wfc m \<and> rows m)"

text \<open>
  A construction call respects the kinds when \<open>PushItem\<close> is given a column header of the
  matrix and, as row, nil or an item of the matrix, and when the new element still fits the
  64-bit address space.  It is proper when, moreover, the row given to \<open>PushItem\<close> has no
  element in the given column yet.  \<open>Solve\<close> is not a construction call.
\<close>

fun kind_ok :: "matrix \<Rightarrow> op \<Rightarrow> bool" where
  "kind_ok m (OpPushHead name) = (Suc (fresh m) < 2 ^ 64)"
| "kind_ok m (OpPushItem r colHead) =
     (Suc (fresh m) < 2 ^ 64 \<and> node m colHead \<and> is_head m colHead \<and> (r = nil \<or> iptr m r))"
| "kind_ok m OpSolve = False"

fun proper :: "matrix \<Rightarrow> op \<Rightarrow> bool" where
  "proper m (OpPushItem r colHead) =
     (kind_ok m (OpPushItem r colHead) \<and> (r = nil \<or> colHead \<notin> set (row_cols m r)))"
| "proper m c = kind_ok m c"

fun all_calls :: "(matrix \<Rightarrow> op \<Rightarrow> bool) \<Rightarrow> op list \<Rightarrow> matrix \<Rightarrow> bool" where
  "all_calls P [] m = True"
| "all_calls P (c # cs) m = (P m c \<and> all_calls P cs (after (final (call c m))))"

text \<open>The states after \<open>PushHead\<close> and \<open>PushItem\<close> on an initialised matrix.\<close>

definition push_head :: "string \<Rightarrow> matrix \<Rightarrow> matrix" where
  "push_head name m =
     m\<lparr>up := (up m)(fresh m := fresh m), down := (down m)(fresh m := fresh m),
       left := (left m)(fresh m := left m mh, mh := fresh m),
       right := (right m)(left m mh := fresh m, fresh m := mh),
       column := (column m)(fresh m := fresh m), ematrix := (ematrix m)(fresh m := True),
       Value := (Value m)(fresh m := HeadVal name 0), fresh := Suc (fresh m)\<rparr>"

definition push_item :: "addr \<Rightarrow> addr \<Rightarrow> matrix \<Rightarrow> matrix" where
  "push_item r c m =
     m\<lparr>up := (up m)(fresh m := up m c, c := fresh m),
       down := (down m)(up m c := fresh m, fresh m := c),
       left := (if r = nil then (left m)(fresh m := fresh m)
                else (left m)(fresh m := r, right m r := fresh m)),
       right := (if r = nil then (right m)(fresh m := fresh m)
                 else (right m)(r := fresh m, fresh m := right m r)),
       column := (column m)(fresh m := c), ematrix := (ematrix m)(fresh m := True),
       Value := (Value m)(fresh m := BoolVal True,
                  c := HeadVal (name_of m c) (size_of m c + 1)),
       fresh := Suc (fresh m)\<rparr>"

text \<open>The names given to \<open>PushHead\<close> by a sequence of calls, in order.\<close>

fun pushed_names :: "op list \<Rightarrow> string list" where
  "pushed_names [] = []"
| "pushed_names (OpPushHead name # cs) = name # pushed_names cs"
| "pushed_names (c # cs) = pushed_names cs"

section \<open>Sequences of construction, cover and uncover\<close>

text \<open>
  \<open>cover\<close> and \<open>uncover\<close> are not exported; \<open>search\<close> calls them.  A sequence of operations
  on one matrix is a list of construction calls, covers and uncovers; \<open>steps\<close> performs it.
\<close>

datatype mop = Call op | Cover addr | Uncover addr

fun step :: "mop \<Rightarrow> matrix \<Rightarrow> matrix res" where
  "step (Call c) m = final (call c m)"
| "step (Cover c) m = cover c m"
| "step (Uncover c) m = uncover c m"

fun steps :: "mop list \<Rightarrow> matrix \<Rightarrow> matrix res" where
  "steps [] m = ok m"
| "steps (a # as) m = bindE (step a m) (steps as)"

text \<open>
  The discipline \<open>search\<close> follows: elements are pushed only while no column is covered and
  every push is proper, \<open>cover\<close> is given a header of the header ring, and \<open>uncover\<close> is
  given the column covered last among those not yet uncovered.  \<open>pending st as m\<close> is the
  stack of columns still covered after the operations \<open>as\<close>, started in state \<open>m\<close> with
  the columns \<open>st\<close> covered; it is \<open>None\<close> when \<open>as\<close> leaves the discipline.
\<close>

fun pending :: "addr list \<Rightarrow> mop list \<Rightarrow> matrix \<Rightarrow> addr list option" where
  "pending st [] m = Some st"
| "pending st (Call c # as) m =
     (if st = [] \<and> proper m c then pending st as (after (step (Call c) m)) else None)"
| "pending st (Cover c # as) m =
     (if live m c then pending (c # st) as (after (step (Cover c) m)) else None)"
| "pending st (Uncover c # as) m =
     (case st of [] \<Rightarrow> None
      | c' # st' \<Rightarrow> if c' = c then pending st' as (after (step (Uncover c) m)) else None)"

text \<open>
  An element is linked when it has not been taken out by a cover: a header that is in the
  header ring, an item that is in the vertical ring of its column.
\<close>

definition linked :: "matrix \<Rightarrow> addr \<Rightarrow> bool" where
  "linked m x = (if is_head m x then live m x else item_in m x)"

text \<open>
  \<open>covered st m\<close>: the state \<open>m\<close> was reached from a freshly constructed matrix by covering
  the columns \<open>st\<close>, last first, and each of them can be uncovered again.
\<close>

inductive covered :: "addr list \<Rightarrow> matrix \<Rightarrow> bool" where
  covered_Nil: "wf0 m \<Longrightarrow> covered [] m"
| covered_Cons: "covered st m0 \<Longrightarrow> wf m \<Longrightarrow> uncover c m = ok m0 \<Longrightarrow> covered (c # st) m"

section \<open>Basic facts about results\<close>

lemma bindE_ok [simp]: "bindE (ok x) f = f x"
  by (simp add: bindE_def ok_def)

lemma bindE_panic [simp]: "bindE (panic e) f = panic e"
  by (simp add: bindE_def panic_def)

lemma bindE_None [simp]: "bindE None f = None"
  by (simp add: bindE_def)

lemma bindE_cong_weak [cong]: "r = r' \<Longrightarrow> bindE r f = bindE r' f"
  by simp

lemma ok_inject [simp]: "(ok x = ok y) = (x = y)"
  by (simp add: ok_def)

lemma panic_inject [simp]: "(panic e = panic e') = (e = e')"
  by (simp add: panic_def)

lemma ok_not_panic [simp]: "ok x \<noteq> panic e" "panic e \<noteq> ok x"
  by (simp_all add: ok_def panic_def)

lemma res_not_None [simp]: "ok x \<noteq> None" "panic e \<noteq> None" "None \<noteq> ok x" "None \<noteq> panic e"
  by (simp_all add: ok_def panic_def)

lemmas store_defs = st_up_def st_down_def st_left_def st_right_def add_size_def

lemmas access_defs = Up_def Down_def Left_def Right_def

lemmas build_defs = Init_def New_def zero_Matrix_def lazyInit_def alloc_def insertHead_def
  insertHeadValue_def PushHead_def insertItem_def PushItem_def

lemmas solve_defs = Head_def getColumn_loop.simps getColumn_def cover_item_def cover_row.simps
  cover_col.simps cover_def uncover_item_def uncover_row.simps uncover_col.simps uncover_def
  rowStr_loop.simps rowStr_def record_solution_def cover_others.simps uncover_others.simps
  search_at.simps search_def Solve_def

lemmas eval_defs = store_defs access_defs build_defs solve_defs call_def Let_def

section \<open>Zero value and lazy initialisation\<close>

lemma PushHead_zero_Matrix: "PushHead name zero_Matrix = PushHead name New"
  by (simp add: PushHead_def lazyInit_def New_def Init_def zero_Matrix_def)

text \<open>
  Claim C10, as amended.  A sequence of calls that begins with \<open>PushHead\<close> returns the same
  values and leaves the same matrix (header ring, item rings, solution list) on the zero value
  of \<open>Matrix\<close> as on \<open>New()\<close>: the first \<open>PushHead\<close> initialises the zero value.
\<close>

theorem zero_value_PushHead_first:
  "run (OpPushHead name # cs) zero_Matrix = run (OpPushHead name # cs) New"
  by (simp add: call_def PushHead_zero_Matrix)

theorem zero_value_PushHead_first_witness:
  "run [OpPushHead ''A'', OpPushItem 0 2, OpSolve] zero_Matrix =
   run [OpPushHead ''A'', OpPushItem 0 2, OpSolve] New"
  using zero_value_PushHead_first [of "''A''" "[OpPushItem 0 2, OpSolve]"] by simp

text \<open>
  Claim C10 as stated fails when \<open>Solve\<close> comes before the first \<open>PushHead\<close>: on the zero
  value the lazy \<open>Init\<close> of \<open>PushHead\<close> clears the solution recorded by the first \<open>Solve\<close>,
  on \<open>New()\<close> nothing clears it, and the second \<open>Solve\<close> returns different lists.
\<close>

theorem zero_value_Solve_first_counterexample:
  "returned (run [OpSolve, OpPushHead ''A'', OpSolve] zero_Matrix)
     = ok [RetSols [[]], RetElem 2, RetSols []] \<and>
   returned (run [OpSolve, OpPushHead ''A'', OpSolve] New)
     = ok [RetSols [[]], RetElem 2, RetSols [[]]]"
  by (simp add: returned_def eval_defs)

section \<open>Paths\<close>

lemma walk_path: "walk f n x y = Some xs \<Longrightarrow> path f x xs y \<and> y \<notin> set xs"
  by (induction n arbitrary: x xs) (auto split: if_splits)

lemma path_walk: "path f x xs y \<Longrightarrow> y \<notin> set xs \<Longrightarrow> length xs \<le> n \<Longrightarrow> walk f n x y = Some xs"
  by (induction n arbitrary: x xs) (case_tac xs; auto)+

lemma walk_numeral:
  "walk f (numeral k) x y =
     (if x = y then Some [] else map_option ((#) x) (walk f (pred_numeral k) (f x) y))"
  by (simp add: numeral_eq_Suc)

lemma path_append: "path f x (as @ bs) z = (\<exists>y. path f x as y \<and> path f y bs z)"
  by (induction as arbitrary: x) auto

lemma path_upd: "u \<notin> set as \<Longrightarrow> path (f(u := v)) x as y = path f x as y"
  by (induction as arbitrary: x) auto

lemma path_cong: "\<forall>a\<in>set as. f a = g a \<Longrightarrow> path f x as y = path g x as y"
  by (induction as arbitrary: x) auto

lemma path_unique:
  "path f x as y \<Longrightarrow> path f x bs y \<Longrightarrow> y \<notin> set as \<Longrightarrow> y \<notin> set bs \<Longrightarrow> as = bs"
proof (induction as arbitrary: x bs)
  case Nil
  then show ?case by (cases bs) auto
next
  case (Cons a as)
  then show ?case by (cases bs) auto
qed

lemma path_distinct:
  "path f x as y \<Longrightarrow> y \<notin> set as \<Longrightarrow> distinct as"
proof (induction as arbitrary: x)
  case Nil
  then show ?case by simp
next
  case (Cons a as)
  have "a \<notin> set as"
  proof
    assume "a \<in> set as"
    then obtain us vs where s: "as = us @ a # vs" by (auto simp: in_set_conv_decomp)
    from Cons.prems have p: "path f (f a) as y" "y \<notin> set as" by auto
    with s have "path f (f a) vs y" by (auto simp: path_append)
    with p have "vs = as" using s by (intro path_unique [of f "f a" _ y]) auto
    with s show False by simp
  qed
  with Cons show ?case by auto
qed

lemma path_last:
  "path f x xs y \<Longrightarrow> \<forall>a\<in>set xs. g (f a) = a \<Longrightarrow> g y = last (g x # xs)"
  by (induction xs arbitrary: x) auto

lemma path_rev:
  "path f x xs y \<Longrightarrow> \<forall>a\<in>set xs. g (f a) = a \<Longrightarrow> path g (g y) (rev xs) (g x)"
proof (induction xs arbitrary: x)
  case Nil
  then show ?case by simp
next
  case (Cons a as)
  from Cons.prems have "path f (f a) as y" "\<forall>a\<in>set as. g (f a) = a" by auto
  then have "path g (g y) (rev as) (g (f a))" by (rule Cons.IH)
  moreover have "g (f a) = a" using Cons.prems by simp
  moreover have "x = a" using Cons.prems by simp
  ultimately show ?case by (simp add: path_append)
qed

lemma path_rotate:
  assumes "path f (f x) (as @ r # bs) x" "x \<notin> set (as @ r # bs)"
  shows "path f (f r) (bs @ x # as) r \<and> r \<notin> set (bs @ x # as)"
proof -
  from assms have d: "distinct (as @ r # bs)" by (rule path_distinct)
  from assms(1) have "path f (f x) as r" "path f (f r) bs x" by (auto simp: path_append)
  then have "path f (f r) (bs @ x # as) r" by (auto simp: path_append)
  moreover have "r \<notin> set (bs @ x # as)" using d assms(2) by auto
  ultimately show ?thesis ..
qed

lemma path_set_closed:
  "path f x xs y \<Longrightarrow> P x \<or> xs = [] \<Longrightarrow> \<forall>a. P a \<and> f a \<noteq> y \<longrightarrow> P (f a) \<Longrightarrow> y \<notin> set xs \<Longrightarrow> \<forall>a\<in>set xs. P a"
proof (induction xs arbitrary: x)
  case Nil
  then show ?case by simp
next
  case (Cons a as)
  then have xa: "x = a" "P a" "path f (f a) as y" by auto
  show ?case
  proof (cases as)
    case Nil
    with xa show ?thesis by simp
  next
    case (Cons b bs)
    with xa have "f a = b" "b \<noteq> y" using Cons.prems(4) \<open>y \<notin> set (a # as)\<close> by auto
    then have "P (f a)" using xa Cons.prems(3) \<open>\<forall>a. P a \<and> f a \<noteq> y \<longrightarrow> P (f a)\<close> by blast
    with Cons.IH [OF xa(3)] Cons.prems xa show ?thesis by auto
  qed
qed

lemma length_le_bound:
  assumes "distinct xs" "\<forall>a\<in>set xs. a < n"
  shows "length xs \<le> n"
proof -
  have "card (set xs) \<le> card {..<n}" using assms(2) by (intro card_mono) auto
  with assms(1) show ?thesis by (simp add: distinct_card)
qed

lemma ring_removal:
  assumes p: "path f (f h) (xs @ j # ys) h" and h: "h \<notin> set (xs @ j # ys)"
    and s: "\<forall>a\<in>set (h # xs @ j # ys). g (f a) = a \<and> f (g a) = a"
  shows "path (f(g j := f j)) ((f(g j := f j)) h) (xs @ ys) h"
    and "\<forall>a\<in>set (h # xs @ ys). (g(f j := g j)) ((f(g j := f j)) a) = a \<and> (f(g j := f j)) ((g(f j := g j)) a) = a"
    and "g j = last (h # xs)" and "f j = hd (ys @ [h])"
proof -
  from p h have d: "distinct (xs @ j # ys)" by (rule path_distinct)
  from p have p1: "path f (f h) xs j" and p2: "path f (f j) ys h" by (auto simp: path_append)
  have gj: "g j = last (h # xs)"
    using path_last [OF p1, of g] s by (cases xs) auto
  show "g j = last (h # xs)" by (rule gj)
  show fj: "f j = hd (ys @ [h])" using p2 by (cases ys) auto
  have gjn: "g j \<notin> set ys" "g j \<noteq> j" using gj d h by (cases xs rule: rev_cases; auto)+
  have p2': "path (f(g j := f j)) (f j) ys h" using p2 gjn by (simp add: path_upd)
  show "path (f(g j := f j)) ((f(g j := f j)) h) (xs @ ys) h"
  proof (cases xs rule: rev_cases)
    case Nil
    with gj p2' show ?thesis by simp
  next
    case (snoc xs' a)
    with gj have ga: "g j = a" by simp
    from p1 snoc have "path f (f h) xs' a" by (auto simp: path_append)
    moreover have "a \<notin> set xs'" "a \<noteq> h" using d h snoc by auto
    ultimately have "path (f(a := f j)) ((f(a := f j)) h) xs' a" by (simp add: path_upd)
    with p2' ga snoc show ?thesis by (auto simp: path_append)
  qed
  show "\<forall>a\<in>set (h # xs @ ys). (g(f j := g j)) ((f(g j := f j)) a) = a \<and> (f(g j := f j)) ((g(f j := g j)) a) = a"
  proof
    fix a assume a: "a \<in> set (h # xs @ ys)"
    then have aj: "a \<noteq> j" using d h by auto
    have sa: "g (f a) = a" "f (g a) = a" and sj: "g (f j) = j" "f (g j) = j" using s a by auto
    have 1: "(g(f j := g j)) ((f(g j := f j)) a) = a"
    proof (cases "a = g j")
      case True
      then show ?thesis by simp
    next
      case False
      then have "f a \<noteq> f j" using sa sj aj by metis
      with False sa show ?thesis by simp
    qed
    have 2: "(f(g j := f j)) ((g(f j := g j)) a) = a"
    proof (cases "a = f j")
      case True
      then show ?thesis by simp
    next
      case False
      then have "g a \<noteq> g j" using sa sj aj by metis
      with False sa show ?thesis by simp
    qed
    from 1 2 show "(g(f j := g j)) ((f(g j := f j)) a) = a \<and> (f(g j := f j)) ((g(f j := g j)) a) = a" ..
  qed
qed

section \<open>Column selection\<close>

lemma is_head_HeadVal: "is_head m x \<Longrightarrow> \<exists>n s. Value m x = HeadVal n s"
  by (auto simp: is_head_def split: val.splits)

lemma getColumn_loop_scan:
  "path (right m) x Ls mh \<Longrightarrow> mh \<notin> set Ls \<Longrightarrow>
   \<forall>a\<in>set Ls. a \<noteq> nil \<and> ematrix m a \<and> is_head m a \<Longrightarrow>
   getColumn_loop (if x = mh then nil else x) c s m = ok (scan m Ls c s)"
proof (induction Ls arbitrary: x c s)
  case Nil
  then show ?case by (simp add: getColumn_loop.simps)
next
  case (Cons a as)
  from Cons.prems have xa: "x = a" "a \<noteq> mh" "a \<noteq> nil" "ematrix m a" and p: "path (right m) (right m a) as mh"
    and rest: "mh \<notin> set as" "\<forall>a\<in>set as. a \<noteq> nil \<and> ematrix m a \<and> is_head m a"
    by auto
  from Cons.prems obtain n ces where v: "Value m a = HeadVal n ces"
    using is_head_HeadVal by force
  have r: "Right a m = ok (if right m a = mh then nil else right m a)"
    using xa by (simp add: Right_def)
  show ?case
    using xa v r Cons.IH [OF p rest]
    by (subst getColumn_loop.simps) (simp add: size_of_def)
qed

lemma scan_spec:
  "(scan m Ls c s = c \<and> (\<forall>x\<in>set Ls. s \<le> size_of m x)) \<or>
   (\<exists>pre post. Ls = pre @ scan m Ls c s # post \<and> size_of m (scan m Ls c s) < s \<and>
      (\<forall>x\<in>set pre. size_of m (scan m Ls c s) < size_of m x) \<and>
      (\<forall>x\<in>set post. size_of m (scan m Ls c s) \<le> size_of m x))"
proof (induction Ls arbitrary: c s)
  case Nil
  then show ?case by simp
next
  case (Cons a as)
  show ?case
  proof (cases "size_of m a < s")
    case True
    from Cons.IH [of a "size_of m a"] show ?thesis
    proof
      assume h: "scan m as a (size_of m a) = a \<and> (\<forall>x\<in>set as. size_of m a \<le> size_of m x)"
      then have "a # as = [] @ scan m (a # as) c s # as" using True by simp
      with h True show ?thesis by (intro disjI2 exI[of _ "[]"] exI[of _ as]) auto
    next
      assume "\<exists>pre post. as = pre @ scan m as a (size_of m a) # post \<and>
        size_of m (scan m as a (size_of m a)) < size_of m a \<and>
        (\<forall>x\<in>set pre. size_of m (scan m as a (size_of m a)) < size_of m x) \<and>
        (\<forall>x\<in>set post. size_of m (scan m as a (size_of m a)) \<le> size_of m x)"
      then obtain pre post where h: "as = pre @ scan m as a (size_of m a) # post"
        "size_of m (scan m as a (size_of m a)) < size_of m a"
        "\<forall>x\<in>set pre. size_of m (scan m as a (size_of m a)) < size_of m x"
        "\<forall>x\<in>set post. size_of m (scan m as a (size_of m a)) \<le> size_of m x" by blast
      have "a # as = (a # pre) @ scan m (a # as) c s # post" using True h(1) by simp
      with h True show ?thesis
        by (intro disjI2 exI[of _ "a # pre"] exI[of _ post]) auto
    qed
  next
    case False
    from Cons.IH [of c s] show ?thesis
    proof
      assume "scan m as c s = c \<and> (\<forall>x\<in>set as. s \<le> size_of m x)"
      with False show ?thesis by auto
    next
      assume "\<exists>pre post. as = pre @ scan m as c s # post \<and> size_of m (scan m as c s) < s \<and>
        (\<forall>x\<in>set pre. size_of m (scan m as c s) < size_of m x) \<and>
        (\<forall>x\<in>set post. size_of m (scan m as c s) \<le> size_of m x)"
      then obtain pre post where h: "as = pre @ scan m as c s # post"
        "size_of m (scan m as c s) < s"
        "\<forall>x\<in>set pre. size_of m (scan m as c s) < size_of m x"
        "\<forall>x\<in>set post. size_of m (scan m as c s) \<le> size_of m x" by blast
      have "a # as = (a # pre) @ scan m (a # as) c s # post" using False h(1) by simp
      with h False show ?thesis
        by (intro disjI2 exI[of _ "a # pre"] exI[of _ post]) auto
    qed
  qed
qed

lemma max_uint64: "(18446744073709551615 :: 64 word) = - 1"
  by simp

lemma getColumn_scan:
  assumes "hlist m = Some Ls" "\<forall>a\<in>set Ls. a \<noteq> nil \<and> ematrix m a \<and> is_head m a"
  shows "getColumn m = ok (scan m Ls nil (- 1))"
proof -
  from assms(1) have p: "path (right m) (right m mh) Ls mh" "mh \<notin> set Ls"
    using walk_path unfolding hlist_def by blast+
  have "Head m = (if right m mh = mh then nil else right m mh)" by (simp add: Head_def)
  then show ?thesis
    using getColumn_loop_scan [OF p assms(2), of nil "- 1"]
    by (simp only: getColumn_def max_uint64)
qed

text \<open>
  When the live header ring \<open>Ls\<close> has a header whose size is below \<open>2^64 - 1\<close>,
  \<open>getColumn\<close> returns the header of minimum size, and of several such the first one met
  scanning right from the master element: the headers before it are strictly larger, the
  headers after it are not smaller.
\<close>

lemma getColumn_first_minimum:
  assumes "hlist m = Some Ls"
    and "\<forall>a\<in>set Ls. a \<noteq> nil \<and> ematrix m a \<and> is_head m a"
    and "\<exists>a\<in>set Ls. size_of m a \<noteq> - 1"
  shows "\<exists>c pre post. getColumn m = ok c \<and> Ls = pre @ c # post \<and>
           (\<forall>x\<in>set pre. size_of m c < size_of m x) \<and>
           (\<forall>x\<in>set post. size_of m c \<le> size_of m x)"
proof -
  let ?c = "scan m Ls nil (- 1)"
  have g: "getColumn m = ok ?c" using assms(1,2) by (rule getColumn_scan)
  from scan_spec [of m Ls nil "- 1"] show ?thesis
  proof
    assume "?c = nil \<and> (\<forall>x\<in>set Ls. - 1 \<le> size_of m x)"
    then have "\<forall>x\<in>set Ls. size_of m x = - 1"
      by (metis word_order.extremum_unique)
    with assms(3) show ?thesis by blast
  next
    assume "\<exists>pre post. Ls = pre @ ?c # post \<and> size_of m ?c < - 1 \<and>
      (\<forall>x\<in>set pre. size_of m ?c < size_of m x) \<and> (\<forall>x\<in>set post. size_of m ?c \<le> size_of m x)"
    with g show ?thesis by blast
  qed
qed


section \<open>Recording a solution\<close>

lemma after_ok [simp]: "after (ok m) = m"
  by (simp add: after_def ok_def)

lemma rowStr_loop_path:
  "path (right m) e xs r \<Longrightarrow> r \<notin> set xs \<Longrightarrow>
   \<forall>e\<in>set xs. e \<noteq> nil \<and> ematrix m e \<and> right m e \<noteq> mh \<and> column m e \<noteq> nil \<and> is_head m (column m e) \<Longrightarrow>
   rowStr_loop r e acc m = ok (acc @ concat (map (\<lambda>e. '' '' @ name_of m (column m e)) xs))"
proof (induction xs arbitrary: e acc)
  case Nil
  then show ?case by (simp add: rowStr_loop.simps)
next
  case (Cons a as)
  from Cons.prems have ea: "e = a" "a \<noteq> r" "a \<noteq> nil" "ematrix m a" "right m a \<noteq> mh" "column m a \<noteq> nil"
    and p: "path (right m) (right m a) as r" "r \<notin> set as"
      "\<forall>e\<in>set as. e \<noteq> nil \<and> ematrix m e \<and> right m e \<noteq> mh \<and> column m e \<noteq> nil \<and> is_head m (column m e)"
    by auto
  from Cons.prems obtain n s where v: "Value m (column m a) = HeadVal n s"
    using is_head_HeadVal by force
  show ?case
    using ea v Cons.IH [OF p]
    by (subst rowStr_loop.simps) (simp add: Right_def name_of_def)
qed

lemma rowStr_row_string:
  assumes "row_ok m r"
  shows "rowStr r m = ok (row_string m r)"
proof -
  from assms obtain xs where o: "others m r = Some xs"
    and a: "\<forall>e\<in>set (r # xs). e \<noteq> nil \<and> ematrix m e \<and> right m e \<noteq> mh \<and> column m e \<noteq> nil \<and> is_head m (column m e)"
    by (auto simp: row_ok_def list_all_iff split: option.splits)
  from o have p: "path (right m) (right m r) xs r" "r \<notin> set xs"
    using walk_path unfolding others_def by blast+
  from a obtain n s where v: "Value m (column m r) = HeadVal n s"
    using is_head_HeadVal by force
  have "rowStr_loop r (right m r) n m = ok (n @ concat (map (\<lambda>e. '' '' @ name_of m (column m e)) xs))"
    using p a by (intro rowStr_loop_path) auto
  then show ?thesis
    using a v o by (simp add: rowStr_def Right_def row_string_def name_of_def comp_def)
qed

lemma solStr_row_strings:
  "\<forall>r\<in>set rs. row_ok m r \<Longrightarrow> solStr rs m = ok (map (row_string m) rs)"
  by (induction rs) (simp_all add: rowStr_row_string)

text \<open>
  Claim C6, as amended.  When no column header is live, \<open>search\<close> records one solution:
  one string for each chosen row in \<open>m.o\<close>.  The string starts with the name of the column
  of the chosen element, the element through which the search entered the row, which need
  not be the first element of the row; the names of the columns of the other elements of the
  row follow in the order of the row ring, rightwards from the chosen element, each preceded
  by a space.
\<close>

theorem recorded_solution_strings:
  assumes "Head m = nil" and "\<forall>r\<in>set (ostack m). row_ok m r"
  shows "search k m = ok (m\<lparr>solutions := solutions m @ [map (row_string m) (ostack m)]\<rparr>)"
  using assms
  by (simp add: search_def search_at.simps [of None] record_solution_def solStr_row_strings)

section \<open>Evaluation of the examples\<close>

lemmas witness_defs = built_def final_def returned_def hlist_def items_def others_def
  is_head_def name_of_def size_of_def row_ok_def row_string_def walk_numeral

theorem recorded_solution_strings_witness:
  "search 1 (after (cover 2 (after (cover 3 ex_AB)))\<lparr>ostack := [4]\<rparr>) =
     ok (after (cover 2 (after (cover 3 ex_AB)))\<lparr>ostack := [4], solutions := [[''A B'']]\<rparr>)"
proof -
  let ?m = "(after (cover 2 (after (cover 3 ex_AB))))\<lparr>ostack := [4]\<rparr>"
  have h: "Head ?m = nil" "\<forall>r\<in>set (ostack ?m). row_ok ?m r"
    by (simp_all add: ex_AB_def witness_defs eval_defs)
  have "map (row_string ?m) (ostack ?m) = [''A B'']" "solutions ?m = []"
    by (simp_all add: ex_AB_def witness_defs eval_defs)
  with recorded_solution_strings [OF h, of 1] show ?thesis by simp
qed


lemma getColumn_first_minimum_ex_AB:
  "\<exists>c pre post. getColumn ex_AB = ok c \<and> [2, 3] = pre @ c # post \<and>
           (\<forall>x\<in>set pre. size_of ex_AB c < size_of ex_AB x) \<and>
           (\<forall>x\<in>set post. size_of ex_AB c \<le> size_of ex_AB x)"
proof -
  have h: "hlist ex_AB = Some [2, 3]" "\<forall>a\<in>set [2, 3]. a \<noteq> nil \<and> ematrix ex_AB a \<and> is_head ex_AB a"
    "\<exists>a\<in>set [2, 3]. size_of ex_AB a \<noteq> - 1"
    by (simp_all add: ex_AB_def witness_defs eval_defs)
  from getColumn_first_minimum [OF h] show ?thesis .
qed

section \<open>Well-formed matrices: basic facts\<close>

subsection \<open>Pointwise facts\<close>

lemma node_simps: "node m x \<Longrightarrow> x \<noteq> nil \<and> x \<noteq> mh \<and> x < fresh m \<and> 2 \<le> x"
  by (auto simp: node_def)

lemma head_not_item: "is_head m x \<Longrightarrow> \<not> is_item m x"
  by (auto simp: is_head_def is_item_def split: val.splits)

lemma inv_k_elem: "inv_k m \<Longrightarrow> node m x \<Longrightarrow> elem_ok m x"
  by (auto simp: inv_k_def node_def list_all_iff)

lemma elem_ok_kind: "elem_ok m x \<Longrightarrow> is_head m x \<or> is_item m x"
  by (auto simp: elem_ok_def split: if_splits)

lemma inv_k_item:
  assumes "inv_k m" "iptr m x"
  shows "ematrix m x" "node m (up m x)" "node m (down m x)" "node m (column m x)"
    "is_head m (column m x)" "iptr m (left m x)" "iptr m (right m x)" "sym_h m x"
    "column m (up m x) = column m x" "column m (down m x) = column m x" "x \<noteq> nil" "x \<noteq> mh"
    "column m x \<noteq> x"
proof -
  have n: "node m x" "is_item m x" using assms(2) by (auto simp: iptr_def)
  then have h: "\<not> is_head m x" using head_not_item by blast
  have e: "elem_ok m x" using assms(1) n(1) by (rule inv_k_elem)
  show "ematrix m x" "node m (up m x)" "node m (down m x)" "node m (column m x)"
    "is_head m (column m x)" "iptr m (left m x)" "iptr m (right m x)" "sym_h m x"
    "column m (up m x) = column m x" "column m (down m x) = column m x"
    using e h by (simp_all add: elem_ok_def)
  show "x \<noteq> nil" "x \<noteq> mh" using n(1) by (auto simp: node_def)
  show "column m x \<noteq> x" using e h by (auto simp: elem_ok_def)
qed

lemma inv_k_head:
  assumes "inv_k m" "node m c" "is_head m c"
  shows "ematrix m c" "node m (up m c)" "node m (down m c)" "column m c = c"
    "hptr m (left m c)" "hptr m (right m c)"
    "column m (up m c) = c" "column m (down m c) = c" "c \<noteq> nil" "c \<noteq> mh"
proof -
  have e: "elem_ok m c" using assms(1,2) by (rule inv_k_elem)
  show "ematrix m c" "node m (up m c)" "node m (down m c)" "column m c = c"
    "hptr m (left m c)" "hptr m (right m c)"
    using e assms(3) by (simp_all add: elem_ok_def)
  then show "column m (up m c) = c" "column m (down m c) = c"
    using e by (simp_all add: elem_ok_def)
  show "c \<noteq> nil" "c \<noteq> mh" using assms(2) by (auto simp: node_def)
qed

lemma inv_k_not_head_item: "inv_k m \<Longrightarrow> node m x \<Longrightarrow> \<not> is_head m x \<Longrightarrow> iptr m x"
  using inv_k_elem [of m x] by (auto simp: elem_ok_def iptr_def)

lemma inv_k_master: "inv_k m \<Longrightarrow> \<not> is_head m mh \<and> \<not> is_item m mh"
  by (simp add: inv_k_def is_head_def is_item_def)

lemma frame_simps [simp]:
  "up (frame s os m) = up m" "down (frame s os m) = down m" "left (frame s os m) = left m"
  "right (frame s os m) = right m" "column (frame s os m) = column m"
  "ematrix (frame s os m) = ematrix m" "Value (frame s os m) = Value m"
  "fresh (frame s os m) = fresh m" "solutions (frame s os m) = s" "ostack (frame s os m) = os"
  by (simp_all add: frame_def)

lemma frame_frame [simp]: "frame s os (frame s' os' m) = frame s os m"
  by (simp add: frame_def)

lemma frame_self [simp]: "frame (solutions m) (ostack m) m = m"
  by (simp add: frame_def)

lemma frame_preds [simp]:
  "node (frame s os m) = node m" "is_head (frame s os m) = is_head m"
  "is_item (frame s os m) = is_item m" "hptr (frame s os m) = hptr m"
  "iptr (frame s os m) = iptr m" "sym_h (frame s os m) = sym_h m"
  "sym_v (frame s os m) = sym_v m" "size_of (frame s os m) = size_of m"
  "name_of (frame s os m) = name_of m" "hlist (frame s os m) = hlist m"
  "items (frame s os m) = items m" "others (frame s os m) = others m"
  by (auto simp: node_def is_head_def is_item_def hptr_def iptr_def sym_h_def sym_v_def
      size_of_def name_of_def hlist_def items_def others_def fun_eq_iff)

lemma frame_preds2 [simp]:
  "elem_ok (frame s os m) = elem_ok m" "vring (frame s os m) = vring m"
  "row (frame s os m) = row m" "item_in (frame s os m) = item_in m"
  "row_active (frame s os m) = row_active m" "live (frame s os m) = live m"
  by (auto simp: elem_ok_def vring_def row_def item_in_def row_active_def live_def fun_eq_iff
      cong: option.case_cong)

lemma wf_frame [simp]: "wf (frame s os m) = wf m"
  by (simp add: wf_def inv_k_def hring_def vrings_def rows_def active_def cong: option.case_cong)

lemma inv_k_frame [simp]: "inv_k (frame s os m) = inv_k m"
  by (simp add: inv_k_def)

lemma vrings_frame [simp]: "vrings (frame s os m) = vrings m"
  by (simp add: vrings_def)

lemma rows_frame [simp]: "rows (frame s os m) = rows m"
  by (simp add: rows_def)

lemma unlink_item_frame: "unlink_item j (frame s os m) = frame s os (unlink_item j m)"
  by (simp add: unlink_item_def frame_def name_of_def size_of_def)

lemma unlink_head_frame: "unlink_head c (frame s os m) = frame s os (unlink_head c m)"
  by (simp add: unlink_head_def frame_def)

subsection \<open>The loop bodies\<close>

lemma cover_item_unlink:
  assumes "inv_k m" "iptr m j"
  shows "cover_item j m = ok (unlink_item j m)"
proof -
  note i = inv_k_item [OF assms]
  from i(5) obtain n s where v: "Value m (column m j) = HeadVal n s"
    using is_head_HeadVal by blast
  have nz: "j \<noteq> nil" "down m j \<noteq> nil" "up m j \<noteq> nil" "column m j \<noteq> nil"
    using i node_simps by blast+
  show ?thesis
    using nz v
    by (simp add: cover_item_def store_defs unlink_item_def name_of_def size_of_def)
qed

lemma uncover_item_unlink:
  assumes "inv_k m" "iptr m j" "sym_v m j"
  shows "uncover_item j (frame s os (unlink_item j m)) = ok (frame s os m)"
proof -
  note i = inv_k_item [OF assms(1,2)]
  from i(5) obtain n z where v: "Value m (column m j) = HeadVal n z"
    using is_head_HeadVal by blast
  have nz: "j \<noteq> nil" "down m j \<noteq> nil" "up m j \<noteq> nil" "column m j \<noteq> nil"
    using i node_simps by blast+
  have s: "up m (down m j) = j" "down m (up m j) = j" using assms(3) by (auto simp: sym_v_def)
  have u: "(up m)(down m j := j) = up m" "(down m)(up m j := j) = down m"
    "(Value m)(column m j := HeadVal n z) = Value m"
    using s v by (auto simp: fun_upd_idem_iff)
  show ?thesis
    using nz v u
    by (simp add: uncover_item_def store_defs unlink_item_def name_of_def size_of_def frame_def)
qed


subsection \<open>Rings of a well-formed matrix\<close>

lemma walk_members:
  assumes "walk f n x y = Some xs" "P x \<or> x = y" "\<forall>a. P a \<and> f a \<noteq> y \<longrightarrow> P (f a)"
  shows "\<forall>a\<in>set xs. P a"
proof -
  from assms(1) have p: "path f x xs y" "y \<notin> set xs" using walk_path by blast+
  have "P x \<or> xs = []" using assms(2) p by (cases xs) auto
  with p assms(3) show ?thesis by (intro path_set_closed [of f x xs y P]) auto
qed

lemma walkI:
  assumes "path f x xs y" "y \<notin> set xs" "\<forall>a\<in>set xs. a < n"
  shows "walk f n x y = Some xs"
proof -
  have "distinct xs" using assms(1,2) by (rule path_distinct)
  then have "length xs \<le> n" using assms(3) by (rule length_le_bound)
  with assms(1,2) show ?thesis by (rule path_walk)
qed

lemma items_members:
  assumes "inv_k m" "node m c" "is_head m c" "items m c = Some Is"
  shows "\<forall>x\<in>set Is. iptr m x \<and> column m x = c"
proof -
  note h = inv_k_head [OF assms(1-3)]
  have "\<forall>a\<in>set Is. node m a \<and> column m a = c"
  proof (rule walk_members [of "down m" "fresh m" "down m c" c Is])
    show "walk (down m) (fresh m) (down m c) c = Some Is" using assms(4) by (simp add: items_def)
    show "(node m (down m c) \<and> column m (down m c) = c) \<or> down m c = c" using h by simp
    show "\<forall>a. (node m a \<and> column m a = c) \<and> down m a \<noteq> c \<longrightarrow>
              node m (down m a) \<and> column m (down m a) = c"
      using inv_k_elem [OF assms(1)] by (auto simp: elem_ok_def)
  qed
  moreover have "c \<notin> set Is" using assms(4) walk_path unfolding items_def by blast
  ultimately show ?thesis
    using inv_k_not_head_item [OF assms(1)] inv_k_head(4) [OF assms(1)] by (metis)
qed

lemma others_members:
  assumes "inv_k m" "iptr m i" "others m i = Some Js"
  shows "\<forall>x\<in>set Js. iptr m x"
proof (rule walk_members [of "right m" "fresh m" "right m i" i Js])
  show "walk (right m) (fresh m) (right m i) i = Some Js" using assms(3) by (simp add: others_def)
  show "iptr m (right m i) \<or> right m i = i" using inv_k_item(7) [OF assms(1,2)] by simp
  show "\<forall>a. iptr m a \<and> right m a \<noteq> i \<longrightarrow> iptr m (right m a)"
    using inv_k_item(7) [OF assms(1)] by blast
qed

lemma hlist_members:
  assumes "inv_k m" "hlist m = Some L"
  shows "\<forall>x\<in>set L. node m x \<and> is_head m x"
proof (rule walk_members [of "right m" "fresh m" "right m mh" mh L])
  show "walk (right m) (fresh m) (right m mh) mh = Some L" using assms(2) by (simp add: hlist_def)
  show "(node m (right m mh) \<and> is_head m (right m mh)) \<or> right m mh = mh"
    using assms(1) by (auto simp: inv_k_def hptr_def)
  show "\<forall>a. (node m a \<and> is_head m a) \<and> right m a \<noteq> mh \<longrightarrow>
            node m (right m a) \<and> is_head m (right m a)"
    using inv_k_head(6) [OF assms(1)] by (auto simp: hptr_def)
qed

lemma itemsD:
  assumes "items m c = Some Is"
  shows "path (down m) (down m c) Is c" "c \<notin> set Is" "distinct Is"
proof -
  show p: "path (down m) (down m c) Is c" "c \<notin> set Is"
    using assms walk_path unfolding items_def by blast+
  then show "distinct Is" by (rule path_distinct)
qed

lemma othersD:
  assumes "others m i = Some Js"
  shows "path (right m) (right m i) Js i" "i \<notin> set Js" "distinct Js"
proof -
  show p: "path (right m) (right m i) Js i" "i \<notin> set Js"
    using assms walk_path unfolding others_def by blast+
  then show "distinct Js" by (rule path_distinct)
qed

lemma hlistD:
  assumes "hlist m = Some L"
  shows "path (right m) (right m mh) L mh" "mh \<notin> set L" "distinct L"
proof -
  show p: "path (right m) (right m mh) L mh" "mh \<notin> set L"
    using assms walk_path unfolding hlist_def by blast+
  then show "distinct L" by (rule path_distinct)
qed

lemma vringsD:
  assumes "vrings m" "node m c" "is_head m c"
  shows "\<exists>Is. items m c = Some Is \<and> (\<forall>x\<in>set (c # Is). sym_v m x) \<and>
           size_of m c = of_nat (length Is)"
proof -
  from assms have "vring m c" by (auto simp: vrings_def list_all_iff node_def)
  then show ?thesis by (auto simp: vring_def list_all_iff split: option.splits)
qed

lemma rowsD:
  assumes "rows m" "iptr m i"
  shows "\<exists>Js. others m i = Some Js \<and> distinct (map (column m) (i # Js))"
proof -
  from assms have "row m i" by (auto simp: rows_def list_all_iff node_def iptr_def)
  then show ?thesis by (auto simp: row_def split: option.splits)
qed

lemma item_in_sym_v:
  assumes "inv_k m" "vrings m" "iptr m j" "item_in m j"
  shows "sym_v m j"
proof -
  note i = inv_k_item [OF assms(1,3)]
  from vringsD [OF assms(2) i(4,5)] obtain Is where
    "items m (column m j) = Some Is" "\<forall>x\<in>set (column m j # Is). sym_v m x" by blast
  with assms(4) show ?thesis by (auto simp: item_in_def)
qed

subsection \<open>Unlinking one item\<close>

lemma unlink_item_fields [simp]:
  "left (unlink_item j m) = left m" "right (unlink_item j m) = right m"
  "column (unlink_item j m) = column m" "ematrix (unlink_item j m) = ematrix m"
  "fresh (unlink_item j m) = fresh m" "ostack (unlink_item j m) = ostack m"
  "solutions (unlink_item j m) = solutions m"
  "up (unlink_item j m) = (up m)(down m j := up m j)"
  "down (unlink_item j m) = (down m)(up m j := down m j)"
  by (simp_all add: unlink_item_def)

lemma unlink_item_kinds:
  assumes "is_head m (column m j)"
  shows "is_head (unlink_item j m) x = is_head m x" "is_item (unlink_item j m) x = is_item m x"
    "name_of (unlink_item j m) x = name_of m x"
    "size_of (unlink_item j m) x = (if x = column m j then size_of m x - 1 else size_of m x)"
  using assms
  by (auto simp: unlink_item_def is_head_def is_item_def name_of_def size_of_def split: val.splits)

lemma unlink_item_static:
  assumes "inv_k m" "iptr m j"
  shows "same_static m (unlink_item j m)"
  using inv_k_item(5) [OF assms]
  by (simp add: same_static_def unlink_item_kinds)

lemma same_static_preds:
  assumes "same_static m m'"
  shows "node m' x = node m x" "iptr m' x = iptr m x" "hptr m' x = hptr m x"
    "others m' x = others m x" "hlist m' = hlist m" "sym_h m' x = sym_h m x"
    "rows m' = rows m" "hring m' = hring m" "live m' x = live m x"
  using assms
  by (auto simp: same_static_def node_def iptr_def hptr_def others_def hlist_def sym_h_def
      rows_def row_def hring_def live_def list_all_iff split: option.splits)

lemma same_static_refl [simp]: "same_static m m"
  by (simp add: same_static_def)

lemma same_static_trans: "same_static m m' \<Longrightarrow> same_static m' m'' \<Longrightarrow> same_static m m''"
  by (simp add: same_static_def)

lemma unlink_item_inv_k:
  assumes "inv_k m" "iptr m j"
  shows "inv_k (unlink_item j m)"
proof -
  let ?m = "unlink_item j m"
  note i = inv_k_item [OF assms]
  note st = same_static_preds [OF unlink_item_static [OF assms]]
  note k = unlink_item_kinds [OF i(5)]
  have cj: "column m j \<noteq> mh" using i(4) by (auto simp: node_def)
  have e: "elem_ok ?m x" if n: "node m x" for x
  proof -
    have ex: "elem_ok m x" using assms(1) n by (rule inv_k_elem)
    have u: "node m (up ?m x) \<and> column m (up ?m x) = column m x"
      using ex i by (auto simp: elem_ok_def)
    have d: "node m (down ?m x) \<and> column m (down ?m x) = column m x"
      using ex i by (auto simp: elem_ok_def)
    show ?thesis
      using ex u d unfolding elem_ok_def st k sym_h_def
      by (simp del: unlink_item_fields(8,9) add: unlink_item_fields(1-7))
  qed
  have "Value ?m mh = NoValue" using assms(1) cj by (simp add: unlink_item_def inv_k_def)
  moreover have "list_all (elem_ok ?m) [2..<fresh ?m]"
    using e by (auto simp: list_all_iff node_def)
  ultimately show ?thesis
    using assms(1) unfolding inv_k_def st by simp
qed


lemma of_nat_length_minus:
  "(of_nat (length (xs @ j # ys)) :: 64 word) - 1 = of_nat (length (xs @ ys))"
  by simp

lemma unlink_item_ring:
  assumes "inv_k m" "vrings m" "iptr m j" "item_in m j" "node m c" "is_head m c"
  shows "vring (unlink_item j m) c \<and>
         items (unlink_item j m) c = map_option (filter (\<lambda>x. x \<noteq> j)) (items m c)"
proof -
  let ?m = "unlink_item j m"
  note i = inv_k_item [OF assms(1,3)]
  note k = unlink_item_kinds [OF i(5)]
  from vringsD [OF assms(2,5,6)] obtain Is where Is: "items m c = Some Is"
    and sy: "\<forall>x\<in>set (c # Is). sym_v m x" and sz: "size_of m c = of_nat (length Is)" by blast
  note p = itemsD [OF Is]
  note mem = items_members [OF assms(1,5,6) Is]
  have lt: "\<forall>a\<in>set Is. a < fresh m" using mem by (auto simp: iptr_def node_def)
  show ?thesis
  proof (cases "c = column m j")
    case True
    with assms(4) Is have "j \<in> set Is" by (simp add: item_in_def)
    then obtain xs ys where s: "Is = xs @ j # ys" by (auto simp: in_set_conv_decomp)
    have sy': "\<forall>a\<in>set (c # xs @ j # ys). up m (down m a) = a \<and> down m (up m a) = a"
      using sy s by (simp add: sym_v_def)
    note r = ring_removal [OF p(1) [unfolded s] p(2) [unfolded s] sy']
    have "path (down ?m) (down ?m c) (xs @ ys) c" using r(1) by simp
    moreover have "c \<notin> set (xs @ ys)" using p(2) s by simp
    moreover have "\<forall>a\<in>set (xs @ ys). a < fresh ?m" using lt s by simp
    ultimately have it: "items ?m c = Some (xs @ ys)" unfolding items_def by (rule walkI)
    have "filter (\<lambda>x. x \<noteq> j) xs = xs" "filter (\<lambda>x. x \<noteq> j) ys = ys"
      using p(3) s by (auto simp: filter_id_conv)
    then have "filter (\<lambda>x. x \<noteq> j) Is = xs @ ys" using s by simp
    moreover have "\<forall>x\<in>set (c # xs @ ys). sym_v ?m x" using r(2) by (simp add: sym_v_def)
    moreover have "size_of ?m c = of_nat (length (xs @ ys))"
      using sz s True k(4) [of c] by simp
    ultimately show ?thesis using it Is by (simp add: vring_def list_all_iff)
  next
    case False
    have colc: "\<forall>a\<in>set (c # Is). column m a = c"
      using mem inv_k_head(4) [OF assms(1,5,6)] by simp
    have ne: "\<forall>a\<in>set (c # Is). a \<noteq> up m j \<and> a \<noteq> down m j \<and> a \<noteq> j"
      using colc i(9,10) False by metis
    have dn: "\<forall>a\<in>set (c # Is). down ?m a = down m a \<and> up ?m a = up m a"
      using ne by simp
    have cl: "\<forall>a\<in>set (c # Is). down m a \<in> set (c # Is) \<and> up m a \<in> set (c # Is)"
    proof
      fix a assume a: "a \<in> set (c # Is)"
      have "down m a \<in> set (c # Is)"
      proof (cases "a = c")
        case True
        with p(1) show ?thesis by (cases Is) auto
      next
        case False
        with a obtain us vs where "Is = us @ a # vs" by (auto simp: in_set_conv_decomp)
        with p(1) show ?thesis by (cases vs) (auto simp: path_append)
      qed
      moreover have "up m (down m a) = a \<and> down m (up m a) = a"
        using sy a by (auto simp: sym_v_def)
      moreover have "up m a \<in> set (c # Is)"
      proof -
        have g: "\<forall>b\<in>set Is. up m (down m b) = b" using sy by (simp add: sym_v_def)
        show ?thesis
        proof (cases "a = c")
          case True
          have "up m c = last (up m (down m c) # Is)"
            using path_last [OF p(1), of "up m"] g by simp
          moreover have "up m (down m c) = c" using sy by (simp add: sym_v_def)
          ultimately show ?thesis using True by (cases Is rule: rev_cases) auto
        next
          case False
          with a obtain us vs where d: "Is = us @ a # vs" by (auto simp: in_set_conv_decomp)
          then have "path (down m) (down m c) us a" using p(1) by (auto simp: path_append)
          then have "up m a = last (up m (down m c) # us)"
            using path_last [of "down m" "down m c" us a "up m"] g d by simp
          moreover have "up m (down m c) = c" using sy by (simp add: sym_v_def)
          ultimately show ?thesis using d by (cases us rule: rev_cases) auto
        qed
      qed
      ultimately show "down m a \<in> set (c # Is) \<and> up m a \<in> set (c # Is)" by simp
    qed
    have "path (down ?m) (down ?m c) Is c"
    proof -
      have "path (down ?m) (down m c) Is c = path (down m) (down m c) Is c"
        using dn by (intro path_cong) simp
      with p(1) dn show ?thesis by simp
    qed
    then have it: "items ?m c = Some Is" using p(2) lt unfolding items_def
      by (intro walkI) simp_all
    have "\<forall>x\<in>set (c # Is). sym_v ?m x"
    proof
      fix x assume x: "x \<in> set (c # Is)"
      then have "down m x \<in> set (c # Is)" "up m x \<in> set (c # Is)" using cl by blast+
      then have "up ?m (down m x) = up m (down m x)" "down ?m (up m x) = down m (up m x)"
        using dn by blast+
      moreover have "down ?m x = down m x" "up ?m x = up m x" using dn x by blast+
      moreover have "sym_v m x" using sy x by blast
      ultimately show "sym_v ?m x" unfolding sym_v_def by metis
    qed
    moreover have "size_of ?m c = of_nat (length Is)" using sz False k(4) [of c] by simp
    moreover have "filter (\<lambda>x. x \<noteq> j) Is = Is" using ne by (auto simp: filter_id_conv)
    ultimately show ?thesis using it Is by (simp add: vring_def list_all_iff)
  qed
qed

lemma unlink_item_vrings:
  assumes "inv_k m" "vrings m" "iptr m j" "item_in m j"
  shows "vrings (unlink_item j m)"
  using unlink_item_ring [OF assms] unlink_item_kinds(1) [OF inv_k_item(5) [OF assms(1,3)]]
  by (auto simp: vrings_def list_all_iff node_def)

section \<open>Cover and uncover on well-formed matrices\<close>

subsection \<open>The inner loops of cover and uncover\<close>

lemma item_Right:
  assumes "inv_k m" "iptr m j"
  shows "Right j m = ok (right m j)"
  using inv_k_item [OF assms] by (auto simp: Right_def iptr_def node_def)

lemma item_Left:
  assumes "inv_k m" "iptr m j"
  shows "Left j (frame s os m) = ok (left m j)"
  using inv_k_item [OF assms] by (auto simp: Left_def iptr_def node_def)

lemma row_prev:
  assumes "inv_k m" "iptr m i" "others m i = Some (pre @ j # rest)"
  shows "left m j = last (i # pre)" "right m j = hd (rest @ [i])" "iptr m j" "j \<noteq> i"
proof -
  note p = othersD [OF assms(3)]
  note mem = others_members [OF assms]
  show "iptr m j" using mem by simp
  show "j \<noteq> i" using p(2) by auto
  from p(1) have p1: "path (right m) (right m i) pre j" and p2: "path (right m) (right m j) rest i"
    by (auto simp: path_append)
  show "right m j = hd (rest @ [i])" using p2 by (cases rest) auto
  have "\<forall>a\<in>set pre. left m (right m a) = a"
    using mem inv_k_item(8) [OF assms(1)] by (auto simp: sym_h_def)
  with p1 have "left m j = last (left m (right m i) # pre)" by (rule path_last)
  moreover have "left m (right m i) = i" using inv_k_item(8) [OF assms(1,2)] by (simp add: sym_h_def)
  ultimately show "left m j = last (i # pre)" by simp
qed

lemma item_in_after_unlink:
  assumes "inv_k m" "vrings m" "iptr m j" "item_in m j" "iptr m x" "item_in m x" "x \<noteq> j"
  shows "item_in (unlink_item j m) x"
proof -
  note i = inv_k_item [OF assms(1,5)]
  from unlink_item_ring [OF assms(1-4) i(4,5)]
  have "items (unlink_item j m) (column m x) = map_option (filter (\<lambda>y. y \<noteq> j)) (items m (column m x))"
    by simp
  with assms(6,7) show ?thesis by (auto simp: item_in_def split: option.splits)
qed

lemma cover_row_loop:
  assumes "inv_k m" "vrings m" "iptr m i" "others m i = Some (pre @ rest)"
    and "\<forall>j\<in>set rest. item_in m j"
  shows "\<exists>m'. (\<forall>s os. cover_row i (hd (rest @ [i])) (frame s os m) = ok (frame s os m')) \<and>
          inv_k m' \<and> vrings m' \<and> same_static m m' \<and>
          (\<forall>c. node m c \<and> is_head m c \<longrightarrow>
               items m' c = map_option (filter (\<lambda>x. x \<notin> set rest)) (items m c)) \<and>
          (\<forall>s os. uncover_row i (last (i # pre @ rest)) (frame s os m') =
                   uncover_row i (last (i # pre)) (frame s os m))"
  using assms
proof (induction rest arbitrary: pre m)
  case Nil
  have "cover_row i i (frame s os m) = ok (frame s os m)" for s os
    by (subst cover_row.simps) simp
  then show ?case using Nil.prems by (intro exI [of _ m]) (simp add: option.map_ident)
next
  case (Cons j rest)
  let ?m1 = "unlink_item j m"
  note rp = row_prev [OF Cons.prems(1,3,4)]
  note st1 = unlink_item_static [OF Cons.prems(1) rp(3)]
  note sp1 = same_static_preds [OF st1]
  have jin: "item_in m j" using Cons.prems(5) by simp
  have k1: "inv_k ?m1" using Cons.prems(1) rp(3) by (rule unlink_item_inv_k)
  have v1: "vrings ?m1" using Cons.prems(1,2) rp(3) jin by (rule unlink_item_vrings)
  have i1: "iptr ?m1 i" using Cons.prems(3) sp1 by simp
  have o1: "others ?m1 i = Some ((pre @ [j]) @ rest)" using Cons.prems(4) sp1 by simp
  have d: "distinct (pre @ j # rest)" using othersD(3) [OF Cons.prems(4)] .
  have mem: "\<forall>x\<in>set (pre @ j # rest). iptr m x"
    using others_members [OF Cons.prems(1,3,4)] .
  have in1: "\<forall>x\<in>set rest. item_in ?m1 x"
  proof
    fix x assume x: "x \<in> set rest"
    then have "iptr m x" "item_in m x" "x \<noteq> j" using mem Cons.prems(5) d by auto
    then show "item_in ?m1 x"
      using item_in_after_unlink [OF Cons.prems(1,2) rp(3) jin] by blast
  qed
  from Cons.IH [OF k1 v1 i1 o1 in1] obtain m' where
    c: "\<forall>s os. cover_row i (hd (rest @ [i])) (frame s os ?m1) = ok (frame s os m')"
    and k: "inv_k m'" and v: "vrings m'"
    and st: "same_static ?m1 m'"
    and it: "\<forall>c. node ?m1 c \<and> is_head ?m1 c \<longrightarrow>
               items m' c = map_option (filter (\<lambda>x. x \<notin> set rest)) (items ?m1 c)"
    and un: "\<forall>s os. uncover_row i (last (i # (pre @ [j]) @ rest)) (frame s os m') =
                   uncover_row i (last (i # pre @ [j])) (frame s os ?m1)"
    by blast
  have "cover_row i j (frame s os m) = ok (frame s os m')" for s os
    using rp(4) cover_item_unlink [of "frame s os m" j] Cons.prems(1)
      item_Right [of "frame s os ?m1" j] k1 rp(3) sp1 rp(2) c
    by (subst cover_row.simps) (simp add: unlink_item_frame)
  then have 1: "\<forall>s os. cover_row i (hd ((j # rest) @ [i])) (frame s os m) = ok (frame s os m')"
    by simp
  have 2: "same_static m m'" using st1 st by (rule same_static_trans)
  have 3: "items m' c = map_option (filter (\<lambda>x. x \<notin> set (j # rest))) (items m c)"
    if "node m c \<and> is_head m c" for c
  proof -
    have "items m' c = map_option (filter (\<lambda>x. x \<notin> set rest)) (items ?m1 c)"
      using it that sp1 st1 by (simp add: same_static_def)
    also have "items ?m1 c = map_option (filter (\<lambda>x. x \<noteq> j)) (items m c)"
      using unlink_item_ring [OF Cons.prems(1,2) rp(3) jin] that by blast
    finally show ?thesis by (cases "items m c") (auto intro: filter_cong)
  qed
  have 4: "uncover_row i (last (i # pre @ j # rest)) (frame s os m') =
           uncover_row i (last (i # pre)) (frame s os m)" for s os
  proof -
    have "uncover_row i (last (i # pre @ j # rest)) (frame s os m') =
          uncover_row i j (frame s os ?m1)" using un by simp
    also have "\<dots> = bindE (uncover_item j (frame s os ?m1))
                       (\<lambda>m. bindE (Left j m) (\<lambda>j'. uncover_row i j' m))"
      using rp(4) by (subst uncover_row.simps) simp
    also have "uncover_item j (frame s os ?m1) = ok (frame s os m)"
      using Cons.prems(1) rp(3) item_in_sym_v [OF Cons.prems(1,2) rp(3) jin]
      by (rule uncover_item_unlink)
    finally show ?thesis
      using item_Left [OF Cons.prems(1) rp(3)] rp(1) by simp
  qed
  from 1 k v 2 3 4 show ?case by blast
qed


subsection \<open>The outer loops of cover and uncover\<close>

lemma node_Up:
  assumes "inv_k m" "node m x"
  shows "Up x (frame s os m) = ok (up m x)"
  using inv_k_elem [OF assms] assms(2) by (auto simp: Up_def elem_ok_def node_def)

lemma node_Down:
  assumes "inv_k m" "node m x"
  shows "Down x m = ok (down m x)"
  using inv_k_elem [OF assms] assms(2) by (auto simp: Down_def elem_ok_def node_def)

lemma row_first:
  assumes "inv_k m" "iptr m i" "others m i = Some Js"
  shows "right m i = hd (Js @ [i])" "left m i = last (i # Js)"
proof -
  note p = othersD [OF assms(3)]
  show "right m i = hd (Js @ [i])" using p(1) by (cases Js) auto
  have "\<forall>a\<in>set Js. left m (right m a) = a"
    using others_members [OF assms] inv_k_item(8) [OF assms(1)] by (auto simp: sym_h_def)
  with p(1) have "left m i = last (left m (right m i) # Js)" by (rule path_last)
  moreover have "left m (right m i) = i" using inv_k_item(8) [OF assms(1,2)] by (simp add: sym_h_def)
  ultimately show "left m i = last (i # Js)" by simp
qed

lemma col_prev:
  assumes "inv_k m" "vrings m" "node m c" "is_head m c" "items m c = Some (pre @ i # rest)"
  shows "up m i = last (c # pre)" "down m i = hd (rest @ [c])" "iptr m i" "i \<noteq> c"
    "column m i = c"
proof -
  note p = itemsD [OF assms(5)]
  note mem = items_members [OF assms(1,3,4,5)]
  show "iptr m i" "column m i = c" using mem by simp_all
  show "i \<noteq> c" using p(2) by auto
  from p(1) have p1: "path (down m) (down m c) pre i" and p2: "path (down m) (down m i) rest c"
    by (auto simp: path_append)
  show "down m i = hd (rest @ [c])" using p2 by (cases rest) auto
  from vringsD [OF assms(2,3,4)] assms(5) have sy: "\<forall>x\<in>set (c # pre @ i # rest). sym_v m x"
    by auto
  then have "\<forall>a\<in>set pre. up m (down m a) = a" by (simp add: sym_v_def)
  with p1 have "up m i = last (up m (down m c) # pre)" by (rule path_last)
  moreover have "up m (down m c) = c" using sy by (simp add: sym_v_def)
  ultimately show "up m i = last (c # pre)" by simp
qed

lemma col_first:
  assumes "inv_k m" "vrings m" "node m c" "is_head m c" "items m c = Some Is"
  shows "down m c = hd (Is @ [c])" "up m c = last (c # Is)"
proof -
  note p = itemsD [OF assms(5)]
  show "down m c = hd (Is @ [c])" using p(1) by (cases Is) auto
  from vringsD [OF assms(2,3,4)] assms(5) have sy: "\<forall>x\<in>set (c # Is). sym_v m x" by auto
  then have "\<forall>a\<in>set Is. up m (down m a) = a" by (simp add: sym_v_def)
  with p(1) have "up m c = last (up m (down m c) # Is)" by (rule path_last)
  moreover have "up m (down m c) = c" using sy by (simp add: sym_v_def)
  ultimately show "up m c = last (c # Is)" by simp
qed

lemma row_same_set:
  assumes "inv_k m" "iptr m i" "others m i = Some Js" "j \<in> set Js"
  shows "\<exists>Ks. others m j = Some Ks \<and> set (j # Ks) = set (i # Js)"
proof -
  note p = othersD [OF assms(3)]
  from assms(4) obtain as bs where s: "Js = as @ j # bs" by (auto simp: in_set_conv_decomp)
  from path_rotate [OF p(1) [unfolded s] p(2) [unfolded s]]
  have r: "path (right m) (right m j) (bs @ i # as) j" "j \<notin> set (bs @ i # as)" by blast+
  have "\<forall>a\<in>set (bs @ i # as). a < fresh m"
    using others_members [OF assms(1-3)] assms(2) s by (auto simp: iptr_def node_def)
  with r have "others m j = Some (bs @ i # as)" unfolding others_def by (rule walkI)
  moreover have "set (j # bs @ i # as) = set (i # Js)" using s by auto
  ultimately show ?thesis by blast
qed

lemma rows_disjoint:
  assumes "inv_k m" "rows m" "iptr m i" "iptr m i'" "i \<noteq> i'" "column m i = column m i'"
    and "others m i = Some Js" "others m i' = Some Js'"
  shows "set Js \<inter> set Js' = {}"
proof (rule ccontr)
  assume "set Js \<inter> set Js' \<noteq> {}"
  then obtain j where j: "j \<in> set Js" "j \<in> set Js'" by blast
  from row_same_set [OF assms(1,3,7) j(1)] row_same_set [OF assms(1,4,8) j(2)]
  have "set (i # Js) = set (i' # Js')" by auto
  then have "i' \<in> set Js" using assms(5) by auto
  moreover from rowsD [OF assms(2,3)] assms(7) have "distinct (map (column m) (i # Js))" by simp
  ultimately show False using assms(6) by auto
qed

lemma cover_col_loop:
  assumes "inv_k m" "vrings m" "rows m" "node m c" "is_head m c"
    and "items m c = Some (pre @ rest)"
    and "\<forall>i\<in>set rest. \<forall>j\<in>others_set m i. item_in m j"
  shows "\<exists>m'. (\<forall>s os. cover_col c (hd (rest @ [c])) (frame s os m) = ok (frame s os m')) \<and>
          inv_k m' \<and> vrings m' \<and> same_static m m' \<and>
          (\<forall>c'. node m c' \<and> is_head m c' \<longrightarrow>
               items m' c' = map_option (filter (\<lambda>x. x \<notin> \<Union> (others_set m ` set rest))) (items m c')) \<and>
          (\<forall>s os. uncover_col c (last (c # pre @ rest)) (frame s os m') =
                   uncover_col c (last (c # pre)) (frame s os m))"
  using assms
proof (induction rest arbitrary: pre m)
  case Nil
  have "cover_col c c (frame s os m) = ok (frame s os m)" for s os
    by (subst cover_col.simps) simp
  then show ?case using Nil.prems by (intro exI [of _ m]) (simp add: option.map_ident)
next
  case (Cons i rest)
  note cp = col_prev [OF Cons.prems(1,2,4,5,6)]
  from rowsD [OF Cons.prems(3) cp(3)] obtain Js where
    Js: "others m i = Some Js" and dc: "distinct (map (column m) (i # Js))" by blast
  note rf = row_first [OF Cons.prems(1) cp(3) Js]
  have os_i: "others_set m i = set Js" using Js by (simp add: others_set_def)
  have jin: "\<forall>j\<in>set Js. item_in m j" using Cons.prems(7) os_i by simp
  from cover_row_loop [of m i "[]" Js, OF Cons.prems(1,2) cp(3)] Js jin obtain m1 where
    c1: "\<forall>s os. cover_row i (hd (Js @ [i])) (frame s os m) = ok (frame s os m1)"
    and k1: "inv_k m1" and v1: "vrings m1"
    and st1: "same_static m m1"
    and it1: "\<forall>c. node m c \<and> is_head m c \<longrightarrow>
               items m1 c = map_option (filter (\<lambda>x. x \<notin> set Js)) (items m c)"
    and un1: "\<forall>s os. uncover_row i (last (i # Js)) (frame s os m1) = uncover_row i i (frame s os m)"
    by auto
  note sp1 = same_static_preds [OF st1]
  have col1: "column m1 = column m" "\<And>x. is_head m1 x = is_head m x"
    using st1 by (simp_all add: same_static_def)
  note mem = items_members [OF Cons.prems(1,4,5,6)]
  have "\<forall>x\<in>set (pre @ i # rest). x \<notin> set Js"
  proof
    fix x assume "x \<in> set (pre @ i # rest)"
    then have "column m x = c" using mem by blast
    then show "x \<notin> set Js" using dc cp(5) by auto
  qed
  then have "filter (\<lambda>x. x \<notin> set Js) (pre @ i # rest) = pre @ i # rest"
    by (simp only: filter_id_conv)
  then have itc: "items m1 c = Some ((pre @ [i]) @ rest)"
    using it1 Cons.prems(4,5,6) by simp
  have cp1: "down m1 i = hd (rest @ [c])"
    using col_prev(2) [of m1 c pre i rest] k1 v1 Cons.prems(4,5) sp1 col1 itc by simp
  have act1: "\<forall>i'\<in>set rest. \<forall>j\<in>others_set m1 i'. item_in m1 j"
  proof (intro ballI)
    fix i' j assume i': "i' \<in> set rest" and j: "j \<in> others_set m1 i'"
    from j obtain Js' where Js': "others m i' = Some Js'" "j \<in> set Js'"
      using sp1 by (auto simp: others_set_def split: option.splits)
    have ii: "iptr m i'" "column m i' = c" using mem i' by simp_all
    have "i \<noteq> i'" using itemsD(3) [OF Cons.prems(6)] i' by auto
    from rows_disjoint [OF Cons.prems(1,3) cp(3) ii(1) this _ Js Js'(1)] cp(5) ii(2) Js'(2)
    have nj: "j \<notin> set Js" by auto
    have ij: "iptr m j" using others_members [OF Cons.prems(1) ii(1) Js'(1)] Js'(2) by simp
    have "item_in m j" using Cons.prems(7) i' Js' by (auto simp: others_set_def)
    moreover have "items m1 (column m j) = map_option (filter (\<lambda>x. x \<notin> set Js)) (items m (column m j))"
      using it1 inv_k_item(4,5) [OF Cons.prems(1) ij] by simp
    ultimately show "item_in m1 j" using nj col1 by (auto simp: item_in_def split: option.splits)
  qed
  have r1: "rows m1" using Cons.prems(3) sp1 by simp
  have n1: "node m1 c" "is_head m1 c" using Cons.prems(4,5) sp1 col1 by simp_all
  from Cons.IH [OF k1 v1 r1 n1 itc act1] obtain m' where
    c: "\<forall>s os. cover_col c (hd (rest @ [c])) (frame s os m1) = ok (frame s os m')"
    and k: "inv_k m'" and v: "vrings m'"
    and st: "same_static m1 m'"
    and it: "\<forall>c'. node m1 c' \<and> is_head m1 c' \<longrightarrow>
               items m' c' = map_option (filter (\<lambda>x. x \<notin> \<Union> (others_set m1 ` set rest))) (items m1 c')"
    and un: "\<forall>s os. uncover_col c (last (c # (pre @ [i]) @ rest)) (frame s os m') =
                   uncover_col c (last (c # pre @ [i])) (frame s os m1)"
    by blast
  have i1: "iptr m1 i" using cp(3) sp1 by simp
  have "cover_col c i (frame s os m) = ok (frame s os m')" for s os
    using cp(4) item_Right [of "frame s os m" i] Cons.prems(1) cp(3) rf(1) c1
      node_Down [of "frame s os m1" i] k1 i1 cp1 c
    by (subst cover_col.simps) (simp add: iptr_def)
  then have 1: "\<forall>s os. cover_col c (hd ((i # rest) @ [c])) (frame s os m) = ok (frame s os m')"
    by simp
  have 2: "same_static m m'" using st1 st by (rule same_static_trans)
  have os1: "others_set m1 x = others_set m x" for x using sp1 by (simp add: others_set_def)
  have 3: "items m' c' = map_option (filter (\<lambda>x. x \<notin> \<Union> (others_set m ` set (i # rest)))) (items m c')"
    if "node m c' \<and> is_head m c'" for c'
  proof -
    have "items m' c' = map_option (filter (\<lambda>x. x \<notin> \<Union> (others_set m ` set rest))) (items m1 c')"
      using it that sp1 col1 os1 by simp
    also have "items m1 c' = map_option (filter (\<lambda>x. x \<notin> set Js)) (items m c')"
      using it1 that by blast
    finally show ?thesis using os_i by (cases "items m c'") (auto intro: filter_cong)
  qed
  have 4: "uncover_col c (last (c # pre @ i # rest)) (frame s os m') =
           uncover_col c (last (c # pre)) (frame s os m)" for s os
  proof -
    have "uncover_col c (last (c # pre @ i # rest)) (frame s os m') =
          uncover_col c i (frame s os m1)" using un by simp
    also have "\<dots> = bindE (Left i (frame s os m1)) (\<lambda>j. bindE (uncover_row i j (frame s os m1))
                       (\<lambda>m. bindE (Up i m) (\<lambda>i'. uncover_col c i' m)))"
      using cp(4) by (subst uncover_col.simps) simp
    also have "Left i (frame s os m1) = ok (last (i # Js))"
      using item_Left [OF k1 i1] rf(2) st1 by (simp add: same_static_def)
    also have "bindE (ok (last (i # Js))) (\<lambda>j. bindE (uncover_row i j (frame s os m1))
                       (\<lambda>m. bindE (Up i m) (\<lambda>i'. uncover_col c i' m))) =
               bindE (uncover_row i i (frame s os m)) (\<lambda>m. bindE (Up i m) (\<lambda>i'. uncover_col c i' m))"
      using un1 by simp
    also have "uncover_row i i (frame s os m) = ok (frame s os m)"
      by (subst uncover_row.simps) simp
    finally show ?thesis
      using node_Up [OF Cons.prems(1), of i s os] cp(1,3) by (simp add: iptr_def)
  qed
  from 1 k v 2 3 4 show ?case by blast
qed


subsection \<open>Unlinking a header\<close>

lemma walk_cong_closed:
  assumes "\<forall>a. P a \<longrightarrow> P (f a) \<and> g a = f a" "P x"
  shows "walk g n x y = walk f n x y"
  using assms(2)
proof (induction n arbitrary: x)
  case 0
  then show ?case by simp
next
  case (Suc n)
  then have "P (f x)" "g x = f x" using assms(1) by blast+
  with Suc.IH [of "f x"] show ?case by simp
qed

lemma same_core_others:
  assumes "inv_k m" "same_core m m'" "iptr m i"
  shows "others m' i = others m i"
proof -
  have "\<forall>a. iptr m a \<longrightarrow> iptr m (right m a) \<and> right m' a = right m a"
    using inv_k_item(7) [OF assms(1)] assms(2) by (auto simp: same_core_def)
  moreover have "iptr m (right m i)" using inv_k_item(7) [OF assms(1,3)] .
  ultimately have "walk (right m') (fresh m) (right m i) i = walk (right m) (fresh m) (right m i) i"
    by (rule walk_cong_closed)
  then show ?thesis using assms(2,3) by (simp add: others_def same_core_def)
qed

lemma same_core_preds:
  assumes "same_core m m'"
  shows "node m' x = node m x" "iptr m' x = iptr m x" "hptr m' x = hptr m x"
  using assms by (auto simp: same_core_def node_def iptr_def hptr_def)

lemma same_core_refl [simp]: "same_core m m"
  by (simp add: same_core_def)

lemma same_core_trans: "same_core m m' \<Longrightarrow> same_core m' m'' \<Longrightarrow> same_core m m''"
  by (simp add: same_core_def iptr_def node_def)

lemma same_static_core: "same_static m m' \<Longrightarrow> same_core m m'"
  by (simp add: same_static_def same_core_def)

lemma same_core_rows:
  assumes "inv_k m" "same_core m m'" "rows m"
  shows "rows m'"
proof -
  have "row m' x" if "node m x" "is_item m x" for x
  proof -
    have i: "iptr m x" using that by (simp add: iptr_def)
    then have "row m x" using assms(3) that by (auto simp: rows_def list_all_iff node_def)
    then show ?thesis
      using same_core_others [OF assms(1,2) i] assms(2)
      by (auto simp: row_def same_core_def split: option.splits)
  qed
  then show ?thesis using assms(2) by (auto simp: rows_def list_all_iff same_core_def node_def)
qed

lemma unlink_head_fields [simp]:
  "up (unlink_head c m) = up m" "down (unlink_head c m) = down m"
  "column (unlink_head c m) = column m" "ematrix (unlink_head c m) = ematrix m"
  "Value (unlink_head c m) = Value m" "fresh (unlink_head c m) = fresh m"
  "ostack (unlink_head c m) = ostack m" "solutions (unlink_head c m) = solutions m"
  "left (unlink_head c m) = (left m)(right m c := left m c)"
  "right (unlink_head c m) = (right m)(left m c := right m c)"
  by (simp_all add: unlink_head_def)

lemma unlink_head_kinds [simp]:
  "is_head (unlink_head c m) x = is_head m x" "is_item (unlink_head c m) x = is_item m x"
  "name_of (unlink_head c m) x = name_of m x" "size_of (unlink_head c m) x = size_of m x"
  "node (unlink_head c m) x = node m x" "iptr (unlink_head c m) x = iptr m x"
  "hptr (unlink_head c m) x = hptr m x" "items (unlink_head c m) x = items m x"
  "sym_v (unlink_head c m) x = sym_v m x" "vring (unlink_head c m) x = vring m x"
  "vrings (unlink_head c m) = vrings m" "item_in (unlink_head c m) x = item_in m x"
  by (auto simp: is_head_def is_item_def name_of_def size_of_def node_def iptr_def hptr_def
      items_def sym_v_def vring_def vrings_def item_in_def list_all_iff split: option.splits)

lemma hptr_not_iptr: "inv_k m \<Longrightarrow> hptr m p \<Longrightarrow> \<not> iptr m p"
  using head_not_item inv_k_master by (auto simp: hptr_def iptr_def)

lemma unlink_head_core:
  assumes "inv_k m" "node m c" "is_head m c"
  shows "same_core m (unlink_head c m)"
  using hptr_not_iptr [OF assms(1)] inv_k_head(5,6) [OF assms]
  by (auto simp: same_core_def)

lemma unlink_head_inv_k:
  assumes "inv_k m" "node m c" "is_head m c"
  shows "inv_k (unlink_head c m)"
proof -
  let ?m = "unlink_head c m"
  note h = inv_k_head [OF assms]
  note ni = hptr_not_iptr [OF assms(1)]
  have lr: "hptr m (left ?m x) \<and> hptr m (right ?m x)" if "hptr m (left m x)" "hptr m (right m x)" for x
    using that h(5,6) by auto
  have e: "elem_ok ?m x" if n: "node m x" for x
  proof -
    have ex: "elem_ok m x" using assms(1) n by (rule inv_k_elem)
    show ?thesis
    proof (cases "is_head m x")
      case True
      with ex lr [of x] show ?thesis by (simp add: elem_ok_def del: unlink_head_fields(9,10))
    next
      case False
      then have ix: "iptr m x" using inv_k_not_head_item [OF assms(1) n] by simp
      note i = inv_k_item [OF assms(1) ix]
      have "left ?m x = left m x" "right ?m x = right m x"
        using ni h(5,6) ix by auto
      moreover have "left ?m (right m x) = left m (right m x)" "right ?m (left m x) = right m (left m x)"
        using ni h(5,6) i(6,7) by auto
      ultimately have "sym_h ?m x" using i(8) by (simp add: sym_h_def del: unlink_head_fields(9,10))
      then show ?thesis
        using ex False \<open>left ?m x = left m x\<close> \<open>right ?m x = right m x\<close>
        by (simp add: elem_ok_def del: unlink_head_fields(9,10))
    qed
  qed
  have "hptr m (left ?m mh) \<and> hptr m (right ?m mh)"
    using lr [of mh] assms(1) by (simp add: inv_k_def)
  moreover have "list_all (elem_ok ?m) [2..<fresh ?m]"
    using e by (auto simp: list_all_iff node_def)
  ultimately show ?thesis
    using assms(1) by (simp add: inv_k_def del: unlink_head_fields(9,10))
qed

lemma hringD:
  assumes "hring m"
  shows "\<exists>L. hlist m = Some L \<and> (\<forall>x\<in>set (mh # L). sym_h m x)"
  using assms by (auto simp: hring_def list_all_iff split: option.splits)

lemma unlink_head_hring:
  assumes "inv_k m" "hring m" "hlist m = Some L" "c \<in> set L"
  shows "hlist (unlink_head c m) = Some (remove1 c L)" "hring (unlink_head c m)"
proof -
  let ?m = "unlink_head c m"
  note p = hlistD [OF assms(3)]
  from hringD [OF assms(2)] assms(3) have sy: "\<forall>x\<in>set (mh # L). sym_h m x" by auto
  from assms(4) obtain xs ys where s: "L = xs @ c # ys" by (auto simp: in_set_conv_decomp)
  have sy': "\<forall>a\<in>set (mh # xs @ c # ys). left m (right m a) = a \<and> right m (left m a) = a"
    using sy s by (simp add: sym_h_def)
  note r = ring_removal [OF p(1) [unfolded s] p(2) [unfolded s] sy']
  have "path (right ?m) (right ?m mh) (xs @ ys) mh" using r(1) by simp
  moreover have "mh \<notin> set (xs @ ys)" using p(2) s by simp
  moreover have "\<forall>a\<in>set (xs @ ys). a < fresh ?m"
    using hlist_members [OF assms(1,3)] s by (auto simp: node_def)
  ultimately have "hlist ?m = Some (xs @ ys)" unfolding hlist_def by (rule walkI)
  moreover have "remove1 c L = xs @ ys" using p(3) s by (simp add: remove1_append)
  ultimately show h: "hlist ?m = Some (remove1 c L)" by simp
  have "\<forall>x\<in>set (mh # xs @ ys). sym_h ?m x" using r(2) by (simp add: sym_h_def)
  then show "hring ?m" using h \<open>remove1 c L = xs @ ys\<close> by (simp add: hring_def list_all_iff)
qed

lemma relink_head:
  assumes "inv_k m" "node m c" "is_head m c" "sym_h m c"
  shows "bindE (st_left (right (unlink_head c m) c) c (frame s os (unlink_head c m)))
           (\<lambda>m'. st_right (left m' c) c m') = ok (frame s os m)"
proof -
  note h = inv_k_head [OF assms(1-3)]
  have nz: "right m c \<noteq> nil" "left m c \<noteq> nil" using h(5,6) by (auto simp: hptr_def node_def)
  have s: "left m (right m c) = c" "right m (left m c) = c" using assms(4) by (auto simp: sym_h_def)
  have u: "(left m)(right m c := c) = left m" "(right m)(left m c := c) = right m"
    using s by (auto simp: fun_upd_idem_iff)
  show ?thesis using nz u by (simp add: store_defs unlink_head_def frame_def)
qed


subsection \<open>Cover on a well-formed matrix, and its inverse\<close>

lemma activeD:
  assumes "active m" "hlist m = Some L" "c \<in> set L" "items m c = Some Is" "i \<in> set Is"
  shows "\<exists>Js. others m i = Some Js \<and> (\<forall>j\<in>set Js. column m j \<in> set L \<and> item_in m j)"
proof -
  from assms(1,2) have "\<forall>c\<in>set L. case items m c of None \<Rightarrow> False
      | Some Is \<Rightarrow> list_all (row_active m L) Is"
    by (simp add: active_def list_all_iff)
  with assms(3) have "case items m c of None \<Rightarrow> False | Some Is \<Rightarrow> list_all (row_active m L) Is"
    by blast
  with assms(4,5) have "row_active m L i" by (simp add: list_all_iff)
  then show ?thesis by (cases "others m i") (simp_all add: row_active_def list_all_iff)
qed

lemma activeI:
  assumes "hlist m = Some L"
    and "\<And>c. c \<in> set L \<Longrightarrow> \<exists>Is. items m c = Some Is \<and>
            (\<forall>i\<in>set Is. \<exists>Js. others m i = Some Js \<and>
               (\<forall>j\<in>set Js. column m j \<in> set L \<and> item_in m j))"
  shows "active m"
proof -
  have "case items m c of None \<Rightarrow> False | Some Is \<Rightarrow> list_all (row_active m L) Is"
    if "c \<in> set L" for c
  proof -
    from assms(2) [OF that] obtain Is where Is: "items m c = Some Is"
      and a: "\<forall>i\<in>set Is. \<exists>Js. others m i = Some Js \<and>
               (\<forall>j\<in>set Js. column m j \<in> set L \<and> item_in m j)" by blast
    have "row_active m L i" if "i \<in> set Is" for i
      using a that by (auto simp: row_active_def list_all_iff)
    with Is show ?thesis by (simp add: list_all_iff)
  qed
  with assms(1) show ?thesis by (simp add: active_def list_all_iff)
qed

lemma cover_unfold:
  assumes "c \<noteq> nil" "right m c \<noteq> nil" "left m c \<noteq> nil"
  shows "cover c m = bindE (Down c (unlink_head c m)) (\<lambda>i. cover_col c i (unlink_head c m))"
  unfolding cover_def unlink_head_def store_defs using assms by simp

lemma cover_wf:
  assumes "wf m" "hlist m = Some L" "c \<in> set L"
  shows "\<exists>m'. (\<forall>s os. cover c (frame s os m) = ok (frame s os m')) \<and>
           wf m' \<and> hlist m' = Some (remove1 c L) \<and> same_core m m' \<and>
           items m' c = items m c \<and>
           (\<forall>s os. uncover c (frame s os m') = ok (frame s os m))"
proof -
  let ?m0 = "unlink_head c m"
  from assms(1) have k: "inv_k m" and hr: "hring m" and vr: "vrings m" and rw: "rows m"
    and ac: "active m" by (simp_all add: wf_def)
  have nc: "node m c" "is_head m c" using hlist_members [OF k assms(2)] assms(3) by simp_all
  note h = inv_k_head [OF k nc]
  from vringsD [OF vr nc] obtain Is where Is: "items m c = Some Is" by blast
  note memc = items_members [OF k nc Is]
  have k0: "inv_k ?m0" using k nc by (rule unlink_head_inv_k)
  have co0: "same_core m ?m0" using k nc by (rule unlink_head_core)
  have r0: "rows ?m0" using k co0 rw by (rule same_core_rows)
  note hl0 = unlink_head_hring [OF k hr assms(2,3)]
  have d: "distinct L" using hlistD(3) [OF assms(2)] .
  have act: "\<exists>Js. others m i = Some Js \<and> distinct (map (column m) (i # Js)) \<and>
               (\<forall>j\<in>set Js. column m j \<in> set L \<and> item_in m j)" if "i \<in> set Is" for i
  proof -
    from activeD [OF ac assms(2,3) Is that] obtain Js where
      "others m i = Some Js" "\<forall>j\<in>set Js. column m j \<in> set L \<and> item_in m j" by blast
    moreover have "iptr m i" using memc that by simp
    from rowsD [OF rw this] obtain Js' where
      "others m i = Some Js'" "distinct (map (column m) (i # Js'))" by blast
    ultimately show ?thesis by auto
  qed
  have os0: "others ?m0 i = others m i" if "iptr m i" for i
    using same_core_others [OF k co0 that] .
  have act0: "\<forall>i\<in>set Is. \<forall>j\<in>others_set ?m0 i. item_in ?m0 j"
    using act os0 memc by (fastforce simp: others_set_def)
  from cover_col_loop [of ?m0 c "[]" Is] k0 vr r0 nc Is act0 obtain m' where
    c': "\<forall>s os. cover_col c (hd (Is @ [c])) (frame s os ?m0) = ok (frame s os m')"
    and k': "inv_k m'" and v': "vrings m'"
    and st': "same_static ?m0 m'"
    and it': "\<forall>c'. node m c' \<and> is_head m c' \<longrightarrow>
               items m' c' = map_option (filter (\<lambda>x. x \<notin> \<Union> (others_set ?m0 ` set Is))) (items m c')"
    and un': "\<forall>s os. uncover_col c (last (c # Is)) (frame s os m') = uncover_col c c (frame s os ?m0)"
    by auto
  define J where "J = \<Union> (others_set m ` set Is)"
  have J0: "\<Union> (others_set ?m0 ` set Is) = J"
    unfolding J_def using os0 memc by (auto simp: others_set_def)
  have Jcol: "column m j \<noteq> c" if "j \<in> J" for j
  proof -
    from that obtain i where i: "i \<in> set Is" "j \<in> others_set m i" unfolding J_def by blast
    with act [OF i(1)] memc show ?thesis by (auto simp: others_set_def)
  qed
  note sp' = same_static_preds [OF st']
  have co': "same_core m m'" using co0 same_static_core [OF st'] by (rule same_core_trans)
  have col': "column m' = column m" "\<And>x. is_head m' x = is_head m x" "fresh m' = fresh m"
    using co' by (simp_all add: same_core_def)
  have os': "others m' i = others m i" if "iptr m i" for i
    using sp'(4) [of i] os0 [OF that] by simp
  \<comment> \<open>the call returns\<close>
  have nz: "c \<noteq> nil" "right m c \<noteq> nil" "left m c \<noteq> nil"
    using h(5,6,9) by (auto simp: hptr_def node_def)
  have "Down c (frame s os ?m0) = ok (hd (Is @ [c]))" for s os
    using node_Down [of "frame s os ?m0" c] k0 nc col_first(1) [OF k vr nc Is] by simp
  moreover have "cover c (frame s os m) =
      bindE (Down c (frame s os ?m0)) (\<lambda>i. cover_col c i (frame s os ?m0))" for s os
    using cover_unfold [of c "frame s os m"] nz unfolding unlink_head_frame by simp
  ultimately have 1: "\<forall>s os. cover c (frame s os m) = ok (frame s os m')"
    using c' by simp
  \<comment> \<open>the header ring\<close>
  have 3: "hlist m' = Some (remove1 c L)" using hl0(1) sp'(5) by simp
  have hr': "hring m'" using hl0(2) sp'(8) by simp
  \<comment> \<open>the ring of the covered column\<close>
  have "filter (\<lambda>x. x \<notin> J) Is = Is" using Jcol memc by (auto simp: filter_id_conv)
  then have 5: "items m' c = items m c" using it' nc Is J0 by simp
  \<comment> \<open>uncover restores the matrix\<close>
  have 6: "uncover c (frame s os m') = ok (frame s os m)" for s os
  proof -
    have "Up c (frame s os m') = ok (last (c # Is))"
      using node_Up [OF k', of c s os] nc same_core_preds(1) [OF co']
        col_first(2) [of m' c Is] k' v' col' 5 Is by simp
    moreover have "uncover_col c (last (c # Is)) (frame s os m') = ok (frame s os ?m0)"
      using un' by (subst (asm) (2) uncover_col.simps) simp
    moreover have "sym_h m c" using hringD [OF hr] assms(2,3) by auto
    ultimately show ?thesis
      using relink_head [OF k nc, of s os] by (simp add: uncover_def)
  qed
  \<comment> \<open>rows that stay linked have all their elements linked under live headers\<close>
  have rw': "rows m'" using k co' rw by (rule same_core_rows)
  have ac': "active m'"
  proof (rule activeI [OF 3])
    fix c' assume c': "c' \<in> set (remove1 c L)"
    then have cL: "c' \<in> set L" "c' \<noteq> c" using d by auto
    have nc': "node m c'" "is_head m c'" using hlist_members [OF k assms(2)] cL by simp_all
    from vringsD [OF vr nc'] obtain Is' where Is': "items m c' = Some Is'" by blast
    have it: "items m' c' = Some (filter (\<lambda>x. x \<notin> J) Is')" using it' nc' Is' J0 by simp
    have "\<exists>Js. others m' i = Some Js \<and>
            (\<forall>j\<in>set Js. column m' j \<in> set (remove1 c L) \<and> item_in m' j)"
      if i: "i \<in> set (filter (\<lambda>x. x \<notin> J) Is')" for i
    proof -
      have iI: "i \<in> set Is'" "i \<notin> J" using i by simp_all
      have ii: "iptr m i" "column m i = c'" using items_members [OF k nc' Is'] iI by simp_all
      from activeD [OF ac assms(2) cL(1) Is' iI(1)] obtain Js where
        Js: "others m i = Some Js" "\<forall>j\<in>set Js. column m j \<in> set L \<and> item_in m j" by blast
      have nocol: "column m j \<noteq> c" if j: "j \<in> set Js" for j
      proof
        assume cj: "column m j = c"
        with Js(2) j Is have "j \<in> set Is" by (auto simp: item_in_def)
        moreover from row_same_set [OF k ii(1) Js(1) j] obtain Ks where
          "others m j = Some Ks" "set (j # Ks) = set (i # Js)" by blast
        moreover have "i \<noteq> j" using othersD(2) [OF Js(1)] j by auto
        ultimately have "i \<in> J" unfolding J_def others_set_def by force
        with iI show False by simp
      qed
      have "item_in m' j" if j: "j \<in> set Js" for j
      proof -
        have ij: "iptr m j" using others_members [OF k ii(1) Js(1)] j by simp
        have "j \<notin> J"
        proof
          assume "j \<in> J"
          then obtain i0 Js0 where i0: "i0 \<in> set Is" "others m i0 = Some Js0" "j \<in> set Js0"
            unfolding J_def by (auto simp: others_set_def split: option.splits)
          have ii0: "iptr m i0" "column m i0 = c" using memc i0(1) by simp_all
          from row_same_set [OF k ii(1) Js(1) j] row_same_set [OF k ii0(1) i0(2,3)]
          have "set (i0 # Js0) = set (i # Js)" by auto
          then have "i0 \<in> set (i # Js)" by auto
          with ii(2) ii0(2) cL(2) nocol show False by auto
        qed
        moreover have "items m' (column m j) = map_option (filter (\<lambda>x. x \<notin> J)) (items m (column m j))"
          using it' inv_k_item(4,5) [OF k ij] J0 by simp
        ultimately show ?thesis using Js(2) j col' by (auto simp: item_in_def split: option.splits)
      qed
      moreover have "column m' j \<in> set (remove1 c L)" if "j \<in> set Js" for j
        using Js(2) nocol that d col' by auto
      ultimately show ?thesis using os' [OF ii(1)] Js(1) by auto
    qed
    with it show "\<exists>Is. items m' c' = Some Is \<and>
            (\<forall>i\<in>set Is. \<exists>Js. others m' i = Some Js \<and>
               (\<forall>j\<in>set Js. column m' j \<in> set (remove1 c L) \<and> item_in m' j))" by blast
  qed
  have 2: "wf m'" using k' hr' v' rw' ac' by (simp add: wf_def)
  from 1 2 3 co' 5 6 show ?thesis by blast
qed

section \<open>Cover followed by uncover\<close>

text \<open>
  Claim C2.  On a well-formed matrix, \<open>uncover(c)\<close> right after \<open>cover(c)\<close> of a live
  column header \<open>c\<close> returns and yields the matrix as it was before \<open>cover(c)\<close>: every
  pointer field of every element and every \<open>Value\<close> (hence every size) are equal.
\<close>

theorem uncover_cover_inverse:
  assumes "wf m" "live m c"
  shows "bindE (cover c m) (uncover c) = ok m"
proof -
  from assms(2) obtain L where L: "hlist m = Some L" "c \<in> set L"
    by (auto simp: live_def split: option.splits)
  from cover_wf [OF assms(1) L] obtain m' where
    c: "\<forall>s os. cover c (frame s os m) = ok (frame s os m')" and co: "same_core m m'"
    and un: "\<forall>s os. uncover c (frame s os m') = ok (frame s os m)" by blast
  from co have "frame (solutions m') (ostack m') m = m" by (simp add: same_core_def frame_def)
  with un [rule_format, of "solutions m'" "ostack m'"] have "uncover c m' = ok m" by simp
  moreover have "cover c m = ok m'"
    using c [rule_format, of "solutions m'" "ostack m'"] co
    by (simp add: same_core_def frame_def)
  ultimately show ?thesis by simp
qed

lemmas wf_defs = wf_def inv_k_def hring_def vrings_def rows_def active_def row_def vring_def
  row_active_def item_in_def elem_ok_def node_def is_item_def hptr_def iptr_def sym_h_def
  sym_v_def live_def

theorem uncover_cover_inverse_witness:
  "bindE (cover 2 ex_AB) (uncover 2) = ok ex_AB"
proof -
  have "wf ex_AB" "live ex_AB 2"
    by (simp_all add: ex_AB_def wf_defs witness_defs eval_defs)
  then show ?thesis by (rule uncover_cover_inverse)
qed

section \<open>Search on well-formed matrices\<close>

subsection \<open>Covering the other columns of a chosen row\<close>

lemma wfD:
  assumes "wf m"
  shows "inv_k m" "hring m" "vrings m" "rows m" "active m"
  using assms by (simp_all add: wf_def)

lemma cover_others_loop:
  assumes "wf m" "hlist m = Some L" "iptr m r" "others m r = Some (pre @ rest)"
    and "\<forall>j\<in>set rest. column m j \<in> set L" "distinct (map (column m) rest)"
  shows "\<exists>m'. (\<forall>s os. cover_others r (hd (rest @ [r])) (frame s os m) = ok (frame s os m')) \<and>
           wf m' \<and> hlist m' = Some (filter (\<lambda>c. c \<notin> column m ` set rest) L) \<and> same_core m m' \<and>
           (\<forall>s os. uncover_others r (last (r # pre @ rest)) (frame s os m') =
                    uncover_others r (last (r # pre)) (frame s os m))"
  using assms
proof (induction rest arbitrary: pre m L)
  case Nil
  have "cover_others r r (frame s os m) = ok (frame s os m)" for s os
    by (subst cover_others.simps) simp
  then show ?case using Nil.prems by (intro exI [of _ m]) simp
next
  case (Cons j rest)
  note k = wfD(1) [OF Cons.prems(1)]
  note rp = row_prev [OF k Cons.prems(3,4)]
  have cj: "column m j \<in> set L" using Cons.prems(5) by simp
  from cover_wf [OF Cons.prems(1,2) cj] obtain m1 where
    c1: "\<forall>s os. cover (column m j) (frame s os m) = ok (frame s os m1)" and w1: "wf m1"
    and h1: "hlist m1 = Some (remove1 (column m j) L)" and co1: "same_core m m1"
    and un1: "\<forall>s os. uncover (column m j) (frame s os m1) = ok (frame s os m)" by blast
  note k1 = wfD(1) [OF w1]
  have col1: "column m1 = column m" using co1 by (simp add: same_core_def)
  have r1: "iptr m1 r" using Cons.prems(3) same_core_preds(2) [OF co1] by simp
  have o1: "others m1 r = Some ((pre @ [j]) @ rest)"
    using same_core_others [OF k co1 Cons.prems(3)] Cons.prems(4) by simp
  have d: "distinct L" using hlistD(3) [OF Cons.prems(2)] .
  have "column m x \<noteq> column m j" if "x \<in> set rest" for x
    using Cons.prems(6) that by (auto simp: image_iff)
  then have l1: "\<forall>x\<in>set rest. column m1 x \<in> set (remove1 (column m j) L)"
    using Cons.prems(5) d col1 by auto
  have d1: "distinct (map (column m1) rest)" using Cons.prems(6) col1 by simp
  from Cons.IH [OF w1 h1 r1 o1 l1 d1] obtain m' where
    c: "\<forall>s os. cover_others r (hd (rest @ [r])) (frame s os m1) = ok (frame s os m')"
    and w: "wf m'"
    and h: "hlist m' = Some (filter (\<lambda>c. c \<notin> column m1 ` set rest) (remove1 (column m j) L))"
    and co: "same_core m1 m'"
    and un: "\<forall>s os. uncover_others r (last (r # (pre @ [j]) @ rest)) (frame s os m') =
                    uncover_others r (last (r # pre @ [j])) (frame s os m1)" by blast
  have j1: "iptr m1 j" using rp(3) same_core_preds(2) [OF co1] by simp
  have rj: "right m1 j = hd (rest @ [r])" using co1 rp(2,3) by (simp add: same_core_def)
  have "cover_others r j (frame s os m) = ok (frame s os m')" for s os
    using rp(4) inv_k_item(11) [OF k rp(3)] c1 item_Right [of "frame s os m1" j] k1 j1 rj c
    by (subst cover_others.simps) simp
  then have 1: "\<forall>s os. cover_others r (hd ((j # rest) @ [r])) (frame s os m) = ok (frame s os m')"
    by simp
  have "remove1 (column m j) L = filter (\<lambda>c. c \<noteq> column m j) L"
    using d by (simp add: distinct_remove1_removeAll removeAll_filter_not_eq) metis
  then have 3: "hlist m' = Some (filter (\<lambda>c. c \<notin> column m ` set (j # rest)) L)"
    using h col1 by (auto intro: filter_cong)
  have 4: "same_core m m'" using co1 co by (rule same_core_trans)
  have 5: "uncover_others r (last (r # pre @ j # rest)) (frame s os m') =
           uncover_others r (last (r # pre)) (frame s os m)" for s os
  proof -
    have "uncover_others r (last (r # pre @ j # rest)) (frame s os m') =
          uncover_others r j (frame s os m1)" using un by simp
    also have "\<dots> = bindE (uncover (column m j) (frame s os m1))
                        (\<lambda>m. bindE (Left j m) (\<lambda>j'. uncover_others r j' m))"
      using rp(4) inv_k_item(11) [OF k rp(3)] col1 by (subst uncover_others.simps) simp
    finally show ?thesis using un1 item_Left [OF k rp(3)] rp(1) by simp
  qed
  from 1 w 3 4 5 show ?case by blast
qed


subsection \<open>Search\<close>

lemma length_le_bound2:
  assumes "distinct xs" "\<forall>a\<in>set xs. 2 \<le> a \<and> a < n"
  shows "length xs \<le> n - 2"
proof -
  have "card (set xs) \<le> card {2..<n}" using assms(2) by (intro card_mono) auto
  with assms(1) show ?thesis by (simp add: distinct_card)
qed

lemma size_not_max:
  assumes "inv_k m" "vrings m" "node m c" "is_head m c"
  shows "size_of m c \<noteq> - 1"
proof -
  from vringsD [OF assms(2-4)] obtain Is where Is: "items m c = Some Is"
    and sz: "size_of m c = of_nat (length Is)" by blast
  have "length Is \<le> fresh m - 2"
    using itemsD(3) [OF Is] items_members [OF assms(1,3,4) Is]
    by (intro length_le_bound2) (auto simp: iptr_def node_def)
  moreover have "fresh m < 2 ^ 64" using assms(1) by (simp add: inv_k_def)
  ultimately have l: "length Is < 2 ^ 64 - 1" by simp
  show ?thesis
  proof
    assume "size_of m c = - 1"
    with sz have "unat (of_nat (length Is) :: 64 word) = unat (- 1 :: 64 word)" by simp
    moreover have "unat (of_nat (length Is) :: 64 word) = length Is"
      using l by (simp add: unat_of_nat)
    ultimately show False using l by (simp add: unsigned_minus_1_eq_mask mask_eq_exp_minus_1)
  qed
qed

lemma iptr_row_ok:
  assumes "inv_k m" "rows m" "iptr m r"
  shows "row_ok m r"
proof -
  from rowsD [OF assms(2,3)] obtain Js where Js: "others m r = Some Js" by blast
  have "\<forall>e\<in>set (r # Js). iptr m e" using others_members [OF assms(1,3) Js] assms(3) by simp
  then have "\<forall>e\<in>set (r # Js). e \<noteq> nil \<and> ematrix m e \<and> right m e \<noteq> mh \<and>
      column m e \<noteq> nil \<and> is_head m (column m e)"
    using inv_k_item [OF assms(1)] by (metis iptr_def node_simps)
  with Js show ?thesis by (simp add: row_ok_def list_all_iff)
qed

lemma frame_row_string [simp]:
  "row_string (frame s os m) = row_string m" "row_cols (frame s os m) = row_cols m"
  "row_ok (frame s os m) = row_ok m"
  by (simp_all add: row_string_def row_cols_def row_ok_def fun_eq_iff cong: option.case_cong)

lemma same_core_row_string:
  assumes "inv_k m" "same_core m m'" "iptr m r"
  shows "row_string m' r = row_string m r" "row_cols m' r = row_cols m r"
  using same_core_others [OF assms] assms(2)
  by (simp_all add: row_string_def row_cols_def same_core_def)

lemma search_at_leaf:
  assumes "inv_k m" "rows m" "hlist m = Some []" "\<forall>r\<in>set os. iptr m r"
  shows "search_at None k (frame s os m) = ok (frame (s @ [map (row_string m) os]) os m)"
proof -
  from hlistD(1) [OF assms(3)] have "Head (frame s os m) = nil" by (simp add: Head_def)
  moreover have "solStr os (frame s os m) = ok (map (row_string m) os)"
    using solStr_row_strings [of os "frame s os m"] iptr_row_ok [OF assms(1,2)] assms(4) by simp
  ultimately show ?thesis
    by (subst search_at.simps) (simp add: record_solution_def frame_def)
qed

lemma search_at_loop_exit:
  "search_at (Some (c, c)) k m = uncover c m"
  by (subst search_at.simps) simp

lemma search_at_loop_step:
  assumes "r \<noteq> c"
  shows "search_at (Some (c, r)) k m =
    bindE (Right r (m\<lparr>ostack := ostack m @ [r]\<rparr>)) (\<lambda>j.
    bindE (cover_others r j (m\<lparr>ostack := ostack m @ [r]\<rparr>)) (\<lambda>m.
    bindE (search_at None (k + 1) m) (\<lambda>m.
      if length (ostack m) \<le> k then panic OutOfRange
      else let r = ostack m ! k;
               m' = m\<lparr>ostack := butlast ((ostack m)[k := nil])\<rparr>
           in if r = nil then panic NilDeref
              else bindE (Left r m') (\<lambda>j.
                   bindE (uncover_others r j m') (\<lambda>m.
                   bindE (Down r m) (\<lambda>r'.
                     search_at (Some (column m' r, r')) k m))))))"
  using assms by (subst search_at.simps) (simp cong del: bindE_cong_weak)

lemma search_at_entry:
  assumes "Head m \<noteq> nil"
  shows "search_at None k m =
    bindE (getColumn m) (\<lambda>c. bindE (cover c m) (\<lambda>m. bindE (Down c m) (\<lambda>r. search_at (Some (c, r)) k m)))"
  using assms by (subst search_at.simps) simp

lemma mset_filter_members:
  assumes "distinct L" "c \<in> set L" "distinct cs" "set cs \<subseteq> set L" "c \<notin> set cs"
  shows "mset (filter (\<lambda>x. x \<in> set cs) (remove1 c L)) = mset cs"
proof -
  let ?L1 = "remove1 c L"
  have d1: "distinct ?L1" using assms(1) by simp
  have "set ?L1 = set L - {c}" using assms(1) by simp
  then have "set (filter (\<lambda>x. x \<in> set cs) ?L1) = set cs" using assms(4,5) by auto
  moreover have "distinct (filter (\<lambda>x. x \<in> set cs) ?L1)" using d1 by simp
  ultimately show "mset (filter (\<lambda>x. x \<in> set cs) ?L1) = mset cs"
    using assms(3) set_eq_iff_mset_eq_distinct by blast
qed

lemma mset_filter_split: "mset xs = mset (filter P xs) + mset (filter (\<lambda>x. \<not> P x) xs)"
  by (induction xs) auto

lemma mset_remove1_add: "c \<in> set L \<Longrightarrow> mset L = add_mset c (mset (remove1 c L))"
  by simp

lemma mset_row_split:
  assumes "distinct L" "c \<in> set L" "distinct cs" "set cs \<subseteq> set L" "c \<notin> set cs"
  shows "mset (c # cs) + mset (filter (\<lambda>x. x \<notin> set cs) (remove1 c L)) = mset L"
proof -
  have "mset L = add_mset c (mset (remove1 c L))" using assms(2) by (rule mset_remove1_add)
  also have "mset (remove1 c L) = mset (filter (\<lambda>x. x \<in> set cs) (remove1 c L)) +
      mset (filter (\<lambda>x. x \<notin> set cs) (remove1 c L))" by (rule mset_filter_split)
  also have "mset (filter (\<lambda>x. x \<in> set cs) (remove1 c L)) = mset cs"
    using assms by (rule mset_filter_members)
  finally show ?thesis by simp
qed


lemma scan_frame [simp]: "scan (frame s os m) Ls c z = scan m Ls c z"
  by (induction Ls arbitrary: c z) simp_all

lemma frame_ostack_update [simp]: "(frame s os m)\<lparr>ostack := os'\<rparr> = frame s os' m"
  by (simp add: frame_def)

lemma solution_for_push:
  assumes "inv_k m" "same_core m m2" "\<forall>x\<in>set os. iptr m x" "iptr m r"
    and "others m r = Some Js" "column m r = c"
    and "distinct L" "c \<in> set L" "distinct (map (column m) (r # Js))"
    and "column m ` set Js \<subseteq> set L"
    and "solution_for m2 (os @ [r]) (filter (\<lambda>x. x \<notin> column m ` set Js) (remove1 c L)) sol"
  shows "solution_for m os L sol"
proof -
  from assms(11) obtain rs where rs: "sol = map (row_string m2) ((os @ [r]) @ rs)"
    "\<forall>x\<in>set rs. iptr m2 x"
    "mset (concat (map (row_cols m2) rs)) =
       mset (filter (\<lambda>x. x \<notin> column m ` set Js) (remove1 c L))"
    unfolding solution_for_def by blast
  have ip: "\<forall>x\<in>set rs. iptr m x" using rs(2) same_core_preds(2) [OF assms(2)] by simp
  have rsx: "row_string m2 x = row_string m x" "row_cols m2 x = row_cols m x" if "iptr m x" for x
    using same_core_row_string [OF assms(1,2) that] by simp_all
  have 1: "sol = map (row_string m) (os @ (r # rs))"
    using rs(1) rsx(1) assms(3,4) ip by simp
  have a: "row_cols m r = c # map (column m) Js" using assms(5,6) by (simp add: row_cols_def)
  have b: "map (row_cols m) rs = map (row_cols m2) rs" using rsx(2) ip by simp
  have e: "set (map (column m) Js) = column m ` set Js" by simp
  have "mset (c # map (column m) Js) +
      mset (filter (\<lambda>x. x \<notin> set (map (column m) Js)) (remove1 c L)) = mset L"
    using assms(6,7,8,9,10) by (intro mset_row_split) auto
  then have f: "mset (c # map (column m) Js) +
      mset (filter (\<lambda>x. x \<notin> column m ` set Js) (remove1 c L)) = mset L"
    by (simp only: e)
  have "mset (concat (map (row_cols m) (r # rs))) =
        mset (c # map (column m) Js) + mset (concat (map (row_cols m2) rs))"
    by (simp only: list.map concat.simps a b mset_append)
  then have 2: "mset (concat (map (row_cols m) (r # rs))) = mset L"
    by (simp only: rs(3) f)
  from 1 2 ip assms(4) show ?thesis unfolding solution_for_def
    by (intro exI [of _ "r # rs"]) simp
qed

lemma search_correct:
  assumes "wf m" "hlist m = Some L" "\<forall>r\<in>set os. iptr m r"
  shows "\<exists>S. (\<forall>s. search_at None (length os) (frame s os m) = ok (frame (s @ S) os m)) \<and>
             (\<forall>sol\<in>set S. solution_for m os L sol)"
  using assms
proof (induction "length L" arbitrary: m L os rule: less_induct)
  case less
  note k = wfD(1) [OF less.prems(1)] and vr = wfD(3) [OF less.prems(1)]
    and rw = wfD(4) [OF less.prems(1)] and ac = wfD(5) [OF less.prems(1)]
  show ?case
  proof (cases L)
    case Nil
    have "search_at None (length os) (frame s os m) =
          ok (frame (s @ [map (row_string m) os]) os m)" for s
      using search_at_leaf [OF k rw _ less.prems(3)] less.prems(2) Nil by simp
    moreover have "solution_for m os L (map (row_string m) os)"
      unfolding solution_for_def using Nil by (intro exI [of _ "[]"]) simp
    ultimately show ?thesis by (intro exI [of _ "[map (row_string m) os]"]) simp
  next
    case (Cons a L')
    define c where "c = scan m L nil (- 1)"
    note mem = hlist_members [OF k less.prems(2)]
    have d: "distinct L" using hlistD(3) [OF less.prems(2)] .
    have cL: "c \<in> set L"
    proof -
      from scan_spec [of m L nil "- 1"] show ?thesis
      proof
        assume "scan m L nil (- 1) = nil \<and> (\<forall>x\<in>set L. - 1 \<le> size_of m x)"
        then have "size_of m a = - 1" using Cons by (simp add: word_order.extremum_unique)
        moreover have "size_of m a \<noteq> - 1" using size_not_max [OF k vr] mem Cons by simp
        ultimately show ?thesis by simp
      next
        assume "\<exists>pre post. L = pre @ scan m L nil (- 1) # post \<and>
          size_of m (scan m L nil (- 1)) < - 1 \<and>
          (\<forall>x\<in>set pre. size_of m (scan m L nil (- 1)) < size_of m x) \<and>
          (\<forall>x\<in>set post. size_of m (scan m L nil (- 1)) \<le> size_of m x)"
        then obtain pre post where "L = pre @ c # post" unfolding c_def by blast
        then show ?thesis by simp
      qed
    qed
    have gc: "getColumn (frame s os m) = ok c" for s
    proof -
      have "\<forall>a\<in>set L. a \<noteq> nil \<and> ematrix (frame s os m) a \<and> is_head (frame s os m) a"
        using mem inv_k_head(1,9) [OF k] by simp
      with getColumn_scan [of "frame s os m" L] less.prems(2) show ?thesis by (simp add: c_def)
    qed
    have hd: "Head (frame s os m) \<noteq> nil" for s
    proof -
      from hlistD(1) [OF less.prems(2)] Cons have "right m mh = a" by simp
      moreover have "a \<noteq> nil" "a \<noteq> mh" using mem Cons by (auto simp: node_def)
      ultimately show ?thesis by (simp add: Head_def)
    qed
    have nc: "node m c" "is_head m c" using mem cL by simp_all
    from cover_wf [OF less.prems(1,2) cL] obtain m1 where
      c1: "\<forall>s os. cover c (frame s os m) = ok (frame s os m1)" and w1: "wf m1"
      and h1: "hlist m1 = Some (remove1 c L)" and co1: "same_core m m1"
      and it1: "items m1 c = items m c"
      and un1: "\<forall>s os. uncover c (frame s os m1) = ok (frame s os m)" by blast
    note k1 = wfD(1) [OF w1] and v1 = wfD(3) [OF w1]
    note sp1 = same_core_preds [OF co1]
    have col1: "column m1 = column m" "\<And>x. is_head m1 x = is_head m x"
      using co1 by (simp_all add: same_core_def)
    have nc1: "node m1 c" "is_head m1 c" using nc sp1 col1 by simp_all
    from vringsD [OF vr nc] obtain Is where Is: "items m c = Some Is" by blast
    have Is1: "items m1 c = Some Is" using it1 Is by simp
    define k0 where "k0 = length os"
    have loop: "\<exists>S. (\<forall>s. search_at (Some (c, hd (rest @ [c]))) k0 (frame s os m1) =
                          uncover c (frame (s @ S) os m1)) \<and>
                    (\<forall>sol\<in>set S. solution_for m os L sol)"
      if "Is = pre @ rest" for pre rest
      using that
    proof (induction rest arbitrary: pre)
      case Nil
      show ?case by (intro exI [of _ "[]"]) (simp add: search_at_loop_exit)
    next
      case (Cons r rest)
      have Isr: "items m1 c = Some (pre @ r # rest)" using Is1 Cons.prems by simp
      note cp = col_prev [OF k1 v1 nc1 Isr]
      have ir: "iptr m r" using cp(3) sp1 by simp
      have rIs: "r \<in> set Is" using Cons.prems by simp
      have colr: "column m r = c" using cp(5) col1 by simp
      from activeD [OF ac less.prems(2) cL Is rIs] obtain Js where
        Js: "others m r = Some Js" "\<forall>j\<in>set Js. column m j \<in> set L \<and> item_in m j" by blast
      from rowsD [OF rw ir] Js(1) have dJ: "distinct (map (column m) (r # Js))" by simp
      have o1: "others m1 r = Some ([] @ Js)" using same_core_others [OF k co1 ir] Js(1) by simp
      have "column m j \<noteq> c" if "j \<in> set Js" for j
        using dJ colr that by (auto simp: image_iff)
      then have l1: "\<forall>j\<in>set Js. column m1 j \<in> set (remove1 c L)"
        using Js(2) col1 d by auto
      have d1: "distinct (map (column m1) Js)" using dJ col1 by simp
      define L2 where "L2 = filter (\<lambda>x. x \<notin> column m ` set Js) (remove1 c L)"
      define j0 where "j0 = hd (Js @ [r])"
      define jl where "jl = last (r # Js)"
      define r1 where "r1 = hd (rest @ [c])"
      from cover_others_loop [OF w1 h1 cp(3) o1 l1 d1] obtain m2 where
        co2: "\<forall>s os. cover_others r j0 (frame s os m1) = ok (frame s os m2)" and w2: "wf m2"
        and h2: "hlist m2 = Some L2" and c12: "same_core m1 m2"
        and un2: "\<forall>s os. uncover_others r jl (frame s os m2) = uncover_others r r (frame s os m1)"
        unfolding L2_def j0_def jl_def col1 by auto
      have c02: "same_core m m2" using co1 c12 by (rule same_core_trans)
      have "length L2 \<le> length (remove1 c L)" unfolding L2_def by (rule length_filter_le)
      then have lt: "length L2 < length L" using cL by (simp add: length_remove1) (cases L; simp)
      have ip2: "\<forall>x\<in>set (os @ [r]). iptr m2 x"
        using less.prems(3) ir same_core_preds(2) [OF c02] by simp
      from less.hyps [OF lt w2 h2 ip2] obtain S2 where
        s2: "\<forall>s. search_at None (k0 + 1) (frame s (os @ [r]) m2) = ok (frame (s @ S2) (os @ [r]) m2)"
        and v2: "\<forall>sol\<in>set S2. solution_for m2 (os @ [r]) L2 sol"
        unfolding k0_def by auto
      from Cons.IH [of "pre @ [r]"] Cons.prems obtain S3 where
        s3: "\<forall>s. search_at (Some (c, r1)) k0 (frame s os m1) = uncover c (frame (s @ S3) os m1)"
        and v3: "\<forall>sol\<in>set S3. solution_for m os L sol"
        unfolding r1_def by auto
      note rf = row_first [OF k1 cp(3) o1 [simplified]]
      have e1: "Right r (frame s os' m1) = ok j0" for s os'
        using item_Right [of "frame s os' m1" r] k1 cp(3) rf(1) by (simp add: j0_def)
      have e2: "Left r (frame s os' m2) = ok jl" for s os'
        using item_Left [OF wfD(1) [OF w2], of r s os'] cp(3) same_core_preds(2) [OF c12] c12 rf(2)
        by (simp add: jl_def same_core_def)
      have e3: "uncover_others r jl (frame s os' m2) = ok (frame s os' m1)" for s os'
        using un2 by (subst (asm) (2) uncover_others.simps) simp
      have e4: "Down r (frame s os' m1) = ok r1" for s os'
        using node_Down [of "frame s os' m1" r] k1 cp(2,3) by (simp add: r1_def iptr_def)
      have e5: "column m2 r = c" using c12 cp(5) by (simp add: same_core_def)
      have e6: "r \<noteq> nil" using inv_k_item(11) [OF k ir] .
      have e7: "(os @ [r]) ! k0 = r" "butlast ((os @ [r])[k0 := nil]) = os"
        "\<not> length (os @ [r]) \<le> k0" by (simp_all add: k0_def)
      have "search_at (Some (c, r)) k0 (frame s os m1) = uncover c (frame (s @ S2 @ S3) os m1)" for s
        using search_at_loop_step [OF cp(4), of k0 "frame s os m1"] e1 co2 s2 e2 e3 e4 e5 e6 e7 s3
        by (simp add: Let_def)
      then have 1: "\<forall>s. search_at (Some (c, hd ((r # rest) @ [c]))) k0 (frame s os m1) =
                        uncover c (frame (s @ S2 @ S3) os m1)" by simp
      have "column m ` set Js \<subseteq> set L" using Js(2) by auto
      then have "solution_for m os L sol" if "sol \<in> set S2" for sol
        using solution_for_push [OF k c02 less.prems(3) ir Js(1) colr d cL dJ] v2 that
        unfolding L2_def by blast
      with v3 have 2: "\<forall>sol\<in>set (S2 @ S3). solution_for m os L sol" by auto
      from 1 2 show ?case by blast
    qed
    from loop [of "[]" Is] obtain S where
      l: "\<forall>s. search_at (Some (c, hd (Is @ [c]))) k0 (frame s os m1) = uncover c (frame (s @ S) os m1)"
      and v: "\<forall>sol\<in>set S. solution_for m os L sol" by auto
    have dn: "Down c (frame s os m1) = ok (hd (Is @ [c]))" for s
      using node_Down [of "frame s os m1" c] k1 nc1 col_first(1) [OF k1 v1 nc1 Is1] by simp
    have "search_at None (length os) (frame s os m) = ok (frame (s @ S) os m)" for s
      using search_at_entry [OF hd, of k0 s] gc c1 dn l un1 by (simp add: k0_def)
    with v show ?thesis by blast
  qed
qed

section \<open>Construction keeps the matrix well-formed\<close>

subsection \<open>Inserting into a ring\<close>

lemma ring_closed:
  assumes p: "path f (f h) xs h" and h: "h \<notin> set xs"
    and s: "\<forall>x\<in>set (h # xs). g (f x) = x \<and> f (g x) = x"
  shows "\<forall>x\<in>set (h # xs). f x \<in> set (h # xs) \<and> g x \<in> set (h # xs)"
proof
  fix a assume a: "a \<in> set (h # xs)"
  have g: "\<forall>b\<in>set xs. g (f b) = b" "g (f h) = h" using s by simp_all
  have 1: "f a \<in> set (h # xs)"
  proof (cases "a = h")
    case True
    with p show ?thesis by (cases xs) auto
  next
    case False
    with a obtain us vs where "xs = us @ a # vs" by (auto simp: in_set_conv_decomp)
    with p show ?thesis by (cases vs) (auto simp: path_append)
  qed
  have 2: "g a \<in> set (h # xs)"
  proof (cases "a = h")
    case True
    have "g h = last (g (f h) # xs)" using p g(1) by (rule path_last)
    with g(2) True show ?thesis by (cases xs rule: rev_cases) auto
  next
    case False
    with a obtain us vs where d: "xs = us @ a # vs" by (auto simp: in_set_conv_decomp)
    then have "path f (f h) us a" using p by (auto simp: path_append)
    moreover have "\<forall>b\<in>set us. g (f b) = b" using g(1) d by simp
    ultimately have "g a = last (g (f h) # us)" by (rule path_last)
    with g(2) d show ?thesis by (cases us rule: rev_cases) auto
  qed
  from 1 2 show "f a \<in> set (h # xs) \<and> g a \<in> set (h # xs)" ..
qed

lemma ring_insertion:
  assumes p: "path f (f h) (xs @ ys) h" and h: "h \<notin> set (xs @ ys)"
    and s: "\<forall>x\<in>set (h # xs @ ys). g (f x) = x \<and> f (g x) = x"
    and a: "a = last (h # xs)" and e: "e \<notin> set (h # xs @ ys)"
  shows "path (f(a := e, e := f a)) ((f(a := e, e := f a)) h) (xs @ e # ys) h"
    and "\<forall>x\<in>set (h # xs @ e # ys).
           (g(e := a, f a := e)) ((f(a := e, e := f a)) x) = x \<and>
           (f(a := e, e := f a)) ((g(e := a, f a := e)) x) = x"
    and "f a = hd (ys @ [h])"
proof -
  let ?f = "f(a := e, e := f a)" and ?g = "g(e := a, f a := e)"
  from p h have d: "distinct (xs @ ys)" by (rule path_distinct)
  from p obtain z where p1: "path f (f h) xs z" and p2: "path f z ys h" by (auto simp: path_append)
  have za: "z = f a"
  proof (cases xs rule: rev_cases)
    case Nil
    with p1 a show ?thesis by simp
  next
    case (snoc xs' b)
    with p1 a show ?thesis by (auto simp: path_append)
  qed
  show fa: "f a = hd (ys @ [h])" using p2 za by (cases ys) auto
  have ain: "a \<in> set (h # xs)" using a by (cases xs rule: rev_cases) auto
  have ae: "a \<noteq> e" using ain e by auto
  have any: "a \<notin> set ys" using a d h by (cases xs rule: rev_cases) auto
  have eny: "e \<notin> set ys" using e by simp
  have p2': "path ?f (f a) ys h"
  proof -
    have "path ?f (f a) ys h = path f (f a) ys h" using any eny by (intro path_cong) auto
    with p2 za show ?thesis by simp
  qed
  show "path ?f (?f h) (xs @ e # ys) h"
  proof (cases xs rule: rev_cases)
    case Nil
    with a have "a = h" by simp
    with ae p2' Nil show ?thesis by simp
  next
    case (snoc xs' b)
    with a have ab: "a = b" by simp
    have hb: "h \<noteq> a" "h \<noteq> e" using h e snoc ab by auto
    from p1 snoc ab have q: "path f (f h) xs' a" by (auto simp: path_append)
    have "a \<notin> set xs'" "e \<notin> set xs'" using d e snoc ab by auto
    then have "path ?f (f h) xs' a = path f (f h) xs' a" by (intro path_cong) auto
    with q have "path ?f (f h) xs' a" by simp
    moreover have "?f h = f h" using hb by simp
    ultimately show ?thesis using p2' ae snoc ab by (auto simp: path_append)
  qed
  have cl: "\<forall>x\<in>set (h # xs @ ys). f x \<in> set (h # xs @ ys) \<and> g x \<in> set (h # xs @ ys)"
    using ring_closed [OF p h] s by simp
  have sa: "g (f a) = a" "f (g a) = a" using s ain by auto
  have fain: "f a \<in> set (h # xs @ ys)" using cl ain by auto
  have fae: "f a \<noteq> e" using fain e by auto
  show "\<forall>x\<in>set (h # xs @ e # ys). ?g (?f x) = x \<and> ?f (?g x) = x"
  proof
    fix x assume x: "x \<in> set (h # xs @ e # ys)"
    show "?g (?f x) = x \<and> ?f (?g x) = x"
    proof (cases "x = e")
      case True
      with ae fae show ?thesis by simp
    next
      case False
      with x have xr: "x \<in> set (h # xs @ ys)" by auto
      then have sx: "g (f x) = x" "f (g x) = x" using s by auto
      have fx: "f x \<noteq> e" "g x \<noteq> e" using cl xr e by (metis)+
      have 1: "?g (?f x) = x"
      proof (cases "x = a")
        case True
        with ae fae show ?thesis by simp
      next
        case xa: False
        then have "f x \<noteq> f a" using sx sa by metis
        with xa False fx sx show ?thesis by simp
      qed
      have 2: "?f (?g x) = x"
      proof (cases "x = f a")
        case True
        with ae fae show ?thesis by simp
      next
        case xa: False
        then have "g x \<noteq> a" using sx by metis
        with xa False fx sx show ?thesis by simp
      qed
      from 1 2 show ?thesis ..
    qed
  qed
qed

subsection \<open>The construction calls as state updates\<close>

lemma hring_last:
  assumes "inv_k m" "hring m" "hlist m = Some L"
  shows "left m mh = last (mh # L)" "right m (left m mh) = mh" "right m mh = hd (L @ [mh])"
    "hptr m (left m mh)"
proof -
  note p = hlistD [OF assms(3)]
  from hringD [OF assms(2)] assms(3) have sy: "\<forall>x\<in>set (mh # L). sym_h m x" by auto
  then have "\<forall>a\<in>set L. left m (right m a) = a" by (simp add: sym_h_def)
  with p(1) have "left m mh = last (left m (right m mh) # L)" by (rule path_last)
  moreover have "left m (right m mh) = mh" using sy by (simp add: sym_h_def)
  ultimately show "left m mh = last (mh # L)" by simp
  show "right m (left m mh) = mh" using sy by (simp add: sym_h_def)
  show "right m mh = hd (L @ [mh])" using p(1) by (cases L) auto
  show "hptr m (left m mh)" using assms(1) by (simp add: inv_k_def)
qed

lemma PushHead_push_head:
  assumes "inv_k m" "hring m"
  shows "PushHead name m = ok (fresh m, push_head name m)"
proof -
  from hringD [OF assms(2)] obtain L where L: "hlist m = Some L" by blast
  note hl = hring_last [OF assms L]
  have f: "fresh m \<noteq> nil" "fresh m \<noteq> mh" using assms(1) by (auto simp: inv_k_def)
  have l: "left m mh \<noteq> nil" "left m mh \<noteq> fresh m"
    using hl(4) f by (auto simp: hptr_def node_def)
  have r: "right m mh \<noteq> nil" using assms(1) by (auto simp: inv_k_def hptr_def node_def)
  have li: "lazyInit m = m" using r by (simp add: lazyInit_def)
  show ?thesis
    using f l hl(2)
    by (simp add: PushHead_def li insertHeadValue_def alloc_def insertHead_def store_defs
        push_head_def Let_def fun_upd_twist)
qed


lemma walk_length: "walk f n x y = Some xs \<Longrightarrow> length xs \<le> n"
  by (induction n arbitrary: x xs) (auto split: if_splits)

lemma walk_extend:
  assumes "walk f n x y = Some xs" "\<forall>a\<in>set xs. g a = f a" "n \<le> n'"
  shows "walk g n' x y = Some xs"
proof -
  from assms(1) have p: "path f x xs y" "y \<notin> set xs" using walk_path by blast+
  have "path g x xs y = path f x xs y" using assms(2) by (intro path_cong) simp
  with p have "path g x xs y" by simp
  moreover have "length xs \<le> n'" using walk_length [OF assms(1)] assms(3) by simp
  ultimately show ?thesis using p(2) by (intro path_walk)
qed

subsection \<open>PushHead keeps the matrix well-formed\<close>

lemma push_head_fields [simp]:
  "up (push_head n m) = (up m)(fresh m := fresh m)"
  "down (push_head n m) = (down m)(fresh m := fresh m)"
  "left (push_head n m) = (left m)(fresh m := left m mh, mh := fresh m)"
  "right (push_head n m) = (right m)(left m mh := fresh m, fresh m := mh)"
  "column (push_head n m) = (column m)(fresh m := fresh m)"
  "ematrix (push_head n m) = (ematrix m)(fresh m := True)"
  "Value (push_head n m) = (Value m)(fresh m := HeadVal n 0)"
  "fresh (push_head n m) = Suc (fresh m)" "ostack (push_head n m) = ostack m"
  "solutions (push_head n m) = solutions m"
  by (simp_all add: push_head_def)

lemma push_head_kinds:
  "is_head (push_head n m) x = (x = fresh m \<or> is_head m x)"
  "is_item (push_head n m) x = (x \<noteq> fresh m \<and> is_item m x)"
  "node (push_head n m) x = (x = fresh m \<and> 2 \<le> fresh m \<or> node m x)"
  "name_of (push_head n m) x = (if x = fresh m then n else name_of m x)"
  "size_of (push_head n m) x = (if x = fresh m then 0 else size_of m x)"
  by (auto simp: is_head_def is_item_def node_def name_of_def size_of_def)

lemma push_head_ptrs:
  assumes "2 \<le> fresh m"
  shows "hptr m p \<Longrightarrow> hptr (push_head n m) p" "iptr m p \<Longrightarrow> iptr (push_head n m) p"
    "hptr (push_head n m) (fresh m)" "node m p \<Longrightarrow> node (push_head n m) p"
  using assms by (auto simp: hptr_def iptr_def push_head_kinds node_def)

lemma push_head_inv_k:
  assumes "inv_k m" "hring m" "Suc (fresh m) < 2 ^ 64"
  shows "inv_k (push_head n m)"
proof -
  let ?m = "push_head n m" and ?e = "fresh m"
  from hringD [OF assms(2)] obtain L where L: "hlist m = Some L" by blast
  note hl = hring_last [OF assms(1,2) L]
  have f: "2 \<le> ?e" using assms(1) by (simp add: inv_k_def)
  note pp = push_head_ptrs [OF f]
  note ni = hptr_not_iptr [OF assms(1)]
  have at: "left m mh \<noteq> ?e" using hl(4) f by (auto simp: hptr_def node_def)
  have e: "elem_ok ?m x" if n: "node m x" for x
  proof -
    have ex: "elem_ok m x" using assms(1) n by (rule inv_k_elem)
    have xe: "x \<noteq> ?e" "x \<noteq> mh" using n by (auto simp: node_def)
    have ud: "up ?m x = up m x" "down ?m x = down m x" "column ?m x = column m x"
      "ematrix ?m x = ematrix m x" "left ?m x = left m x" using xe by simp_all
    have une: "up m x \<noteq> ?e" "down m x \<noteq> ?e" using ex by (auto simp: elem_ok_def node_def)
    have c1: "node ?m (up m x)" "node ?m (down m x)" "column ?m (up m x) = column m x"
      "column ?m (down m x) = column m x"
      using ex une pp(4) by (auto simp: elem_ok_def)
    show ?thesis
    proof (cases "is_head m x")
      case True
      have "hptr m (left m x)" "hptr m (right m x)" using ex True by (simp_all add: elem_ok_def)
      then have "hptr ?m (left m x)" "hptr ?m (right ?m x)"
        using pp(1,3) xe by simp_all
      with ex True c1 xe show ?thesis
        unfolding elem_ok_def ud by (simp add: push_head_kinds del: push_head_fields)
    next
      case False
      then have ix: "iptr m x" using inv_k_not_head_item [OF assms(1) n] by simp
      note i = inv_k_item [OF assms(1) ix]
      have rx: "right ?m x = right m x" using ni hl(4) ix xe by auto
      have lr: "left m x \<noteq> ?e" "right m x \<noteq> ?e" "left m x \<noteq> mh" "right m x \<noteq> mh"
        "right m x \<noteq> left m mh" "left m x \<noteq> left m mh"
        using i(6,7) ni hl(4) by (auto simp: iptr_def node_def)
      have "sym_h ?m x" using i(8) lr unfolding sym_h_def rx ud by simp
      moreover have "node ?m (column m x)" "is_head ?m (column m x)"
        "iptr ?m (left m x)" "iptr ?m (right m x)"
        using i pp by (simp_all add: push_head_kinds)
      ultimately show ?thesis
        using False ix c1 xe ex unfolding elem_ok_def ud rx
        by (simp add: push_head_kinds iptr_def del: push_head_fields)
    qed
  qed
  have ee: "elem_ok ?m ?e"
    using f hl(4) pp(1) [of "left m mh"] at
    by (simp add: elem_ok_def push_head_kinds hptr_def)
  have "list_all (elem_ok ?m) [2..<fresh ?m]"
    using e ee by (auto simp: list_all_iff node_def less_Suc_eq)
  moreover have "hptr ?m (left ?m mh)" using pp(3) by simp
  moreover have "hptr ?m (right ?m mh)"
    using assms(1) pp(1,3) f by (auto simp: inv_k_def)
  ultimately show ?thesis using assms(1,3) f by (simp add: inv_k_def)
qed

lemma push_head_hring:
  assumes "inv_k m" "hring m" "hlist m = Some L"
  shows "hlist (push_head n m) = Some (L @ [fresh m])" "hring (push_head n m)"
proof -
  let ?m = "push_head n m" and ?e = "fresh m"
  note p = hlistD [OF assms(3)]
  note hl = hring_last [OF assms]
  note mem = hlist_members [OF assms(1,3)]
  from hringD [OF assms(2)] assms(3) have sy: "\<forall>x\<in>set (mh # L). sym_h m x" by auto
  have f: "2 \<le> ?e" using assms(1) by (simp add: inv_k_def)
  have e: "?e \<notin> set (mh # L @ [])" using mem f by (auto simp: node_def)
  have sy': "\<forall>x\<in>set (mh # L @ []). left m (right m x) = x \<and> right m (left m x) = x"
    using sy by (simp add: sym_h_def)
  note r = ring_insertion [of "right m" mh L "[]" "left m" "left m mh" ?e,
      OF _ _ sy' _ e, simplified]
  have fr: "right ?m = (right m)(left m mh := ?e, ?e := right m (left m mh))"
    using hl(2) by simp
  have fl: "left ?m = (left m)(?e := left m mh, right m (left m mh) := ?e)"
    using hl(2) by simp
  have "path (right ?m) (right ?m mh) (L @ [?e]) mh"
    unfolding fr using r(1) p hl(1) by simp
  moreover have "mh \<notin> set (L @ [?e])" using p(2) f by simp
  moreover have "\<forall>a\<in>set (L @ [?e]). a < fresh ?m" using mem by (auto simp: node_def)
  ultimately show h: "hlist ?m = Some (L @ [?e])" unfolding hlist_def by (rule walkI)
  have "\<forall>x\<in>set (mh # L @ [?e]). sym_h ?m x"
    unfolding sym_h_def fr fl using r(2) p hl(1) by simp
  with h show "hring ?m" by (simp add: hring_def list_all_iff)
qed


lemma list_all_nodes: "list_all P [2..<n] = (\<forall>x. 2 \<le> x \<and> x < n \<longrightarrow> P x)"
  by (auto simp: list_all_iff)

lemma fullD:
  assumes "full m" "hlist m = Some L" "node m x"
  shows "is_head m x \<Longrightarrow> x \<in> set L" "is_item m x \<Longrightarrow> item_in m x"
  using assms by (auto simp: full_def list_all_iff node_def)

lemma push_head_items:
  assumes "inv_k m" "vrings m" "node m c" "is_head m c"
  shows "items (push_head n m) c = items m c" "vring (push_head n m) c"
proof -
  let ?m = "push_head n m" and ?e = "fresh m"
  from vringsD [OF assms(2-4)] obtain Is where Is: "items m c = Some Is"
    and sy: "\<forall>x\<in>set (c # Is). sym_v m x" and sz: "size_of m c = of_nat (length Is)" by blast
  note mem = items_members [OF assms(1,3,4) Is]
  have old: "a \<noteq> ?e \<and> up m a \<noteq> ?e \<and> down m a \<noteq> ?e" if "a \<in> set (c # Is)" for a
  proof -
    have "node m a" using that mem assms(3) by (auto simp: iptr_def)
    from inv_k_elem [OF assms(1) this] this show ?thesis by (simp add: elem_ok_def node_def)
  qed
  have dn: "down ?m a = down m a" "up ?m a = up m a" if "a \<in> set (c # Is)" for a
    using old [OF that] by simp_all
  have "\<forall>a\<in>set Is. down ?m a = down m a" using dn by simp
  with Is have "walk (down ?m) (fresh ?m) (down m c) c = Some Is"
    unfolding items_def by (rule walk_extend) simp
  then show it: "items ?m c = items m c" using Is dn(1) [of c] by (simp add: items_def)
  have "sym_v ?m x" if x: "x \<in> set (c # Is)" for x
  proof -
    have "sym_v m x" using sy x by blast
    moreover have "up ?m (down m x) = up m (down m x)" "down ?m (up m x) = down m (up m x)"
      using old [OF x] by simp_all
    ultimately show ?thesis unfolding sym_v_def dn [OF x] by simp
  qed
  moreover have "size_of ?m c = of_nat (length Is)"
    using sz old [of c] by (simp add: push_head_kinds)
  ultimately show "vring ?m c" using it Is by (simp add: vring_def list_all_iff)
qed

lemma push_head_vrings:
  assumes "inv_k m" "vrings m"
  shows "vrings (push_head n m)"
proof -
  let ?m = "push_head n m" and ?e = "fresh m"
  have "vring ?m ?e"
    by (simp add: vring_def items_def sym_v_def push_head_kinds)
  moreover have "vring ?m c" if "node m c" "is_head m c" for c
    using push_head_items(2) [OF assms that] .
  ultimately have "is_head ?m c \<longrightarrow> vring ?m c" if "2 \<le> c" "c < Suc ?e" for c
    using that by (cases "c = ?e") (simp_all add: push_head_kinds node_def)
  then show ?thesis unfolding vrings_def list_all_nodes by simp
qed

lemma push_head_full:
  assumes "inv_k m" "hring m" "vrings m" "full m"
  shows "full (push_head n m)"
proof -
  let ?m = "push_head n m" and ?e = "fresh m"
  from hringD [OF assms(2)] obtain L where L: "hlist m = Some L" by blast
  note h = push_head_hring(1) [OF assms(1,2) L, of n]
  have "item_in ?m x" if n: "node m x" and i: "is_item m x" for x
  proof -
    have ix: "iptr m x" using n i by (simp add: iptr_def)
    note ii = inv_k_item [OF assms(1) ix]
    have "x \<noteq> ?e" using n by (simp add: node_def)
    then have "item_in ?m x = item_in m x"
      using push_head_items(1) [OF assms(1,3) ii(4,5), of n] by (simp add: item_in_def)
    with fullD(2) [OF assms(4) L n i] show ?thesis by simp
  qed
  moreover have "x \<in> set (L @ [?e])" if "node m x" "is_head m x" for x
    using fullD(1) [OF assms(4) L that] by simp
  ultimately have "(is_head ?m x \<longrightarrow> x \<in> set (L @ [?e])) \<and> (is_item ?m x \<longrightarrow> item_in ?m x)"
    if "2 \<le> x" "x < Suc ?e" for x
    using that by (cases "x = ?e") (simp_all add: push_head_kinds node_def)
  then show ?thesis using h unfolding full_def list_all_nodes by simp
qed

lemma push_head_others:
  assumes "inv_k m" "hring m" "iptr m x" "others m x = Some Js"
  shows "others (push_head n m) x = Some Js"
proof -
  let ?m = "push_head n m" and ?e = "fresh m"
  from hringD [OF assms(2)] obtain L where L: "hlist m = Some L" by blast
  note hl = hring_last [OF assms(1,2) L]
  have mem: "\<forall>a\<in>set (x # Js). iptr m a" using others_members [OF assms(1,3,4)] assms(3) by simp
  have old: "a \<noteq> ?e \<and> a \<noteq> left m mh" if "a \<in> set (x # Js)" for a
  proof -
    have i: "iptr m a" using mem that by blast
    then have "a \<noteq> ?e" by (simp add: iptr_def node_def)
    moreover have "a \<noteq> left m mh" using hptr_not_iptr [OF assms(1) hl(4)] i by blast
    ultimately show ?thesis ..
  qed
  have r: "right ?m a = right m a" if "a \<in> set (x # Js)" for a
    using old [OF that] by simp
  then have "\<forall>a\<in>set Js. right ?m a = right m a" by simp
  with assms(4) have "walk (right ?m) (fresh ?m) (right m x) x = Some Js"
    unfolding others_def by (rule walk_extend) simp
  then show ?thesis using r [of x] by (simp add: others_def)
qed

lemma push_head_rows:
  assumes "inv_k m" "hring m" "rows m"
  shows "rows (push_head n m)"
proof -
  let ?m = "push_head n m" and ?e = "fresh m"
  have "row ?m x" if n: "node m x" and i: "is_item m x" for x
  proof -
    have ix: "iptr m x" using n i by (simp add: iptr_def)
    from rowsD [OF assms(3) ix] obtain Js where
      Js: "others m x = Some Js" "distinct (map (column m) (x # Js))" by blast
    have "\<forall>a\<in>set (x # Js). a \<noteq> ?e"
      using others_members [OF assms(1) ix Js(1)] ix by (auto simp: iptr_def node_def)
    then have e: "map (column ?m) (x # Js) = map (column m) (x # Js)" by (intro map_cong) auto
    have "distinct (map (column ?m) (x # Js))" using Js(2) by (simp only: e)
    with push_head_others [OF assms(1,2) ix Js(1), of n] show ?thesis
      by (simp only: row_def option.case)
  qed
  then have "is_item ?m x \<longrightarrow> row ?m x" if "2 \<le> x" "x < Suc ?e" for x
    using that by (cases "x = ?e") (simp_all add: push_head_kinds node_def)
  then show ?thesis unfolding rows_def list_all_nodes by simp
qed

lemma push_head_wfc:
  assumes "wfc m" "Suc (fresh m) < 2 ^ 64"
  shows "wfc (push_head n m)"
proof -
  from assms(1) have k: "inv_k m" and h: "hring m" and v: "vrings m" and f: "full m"
    by (simp_all add: wfc_def)
  from hringD [OF h] obtain L where L: "hlist m = Some L" by blast
  show ?thesis
    unfolding wfc_def
    using push_head_inv_k [OF k h assms(2)] push_head_hring(2) [OF k h L]
      push_head_vrings [OF k v] push_head_full [OF k h v f] by simp
qed

lemma push_head_wf0:
  assumes "wf0 m" "Suc (fresh m) < 2 ^ 64"
  shows "wf0 (push_head n m)"
proof -
  from assms(1) have c: "wfc m" and r: "rows m" by (simp_all add: wf0_def)
  then have "inv_k m" "hring m" by (simp_all add: wfc_def)
  from push_head_rows [OF this r] push_head_wfc [OF c assms(2)] show ?thesis
    by (simp add: wf0_def)
qed

subsection \<open>PushItem keeps the matrix well-formed\<close>

lemma PushItem_push_item:
  assumes "inv_k m" "vrings m" "node m c" "is_head m c" "r = nil \<or> iptr m r"
  shows "PushItem r c m = ok (fresh m, push_item r c m)"
proof -
  let ?e = "fresh m"
  note h = inv_k_head [OF assms(1,3,4)]
  from vringsD [OF assms(2-4)] have sc: "sym_v m c" by auto
  then have dc: "down m (up m c) = c" by (simp add: sym_v_def)
  from h(10) obtain n s where v: "Value m c = HeadVal n s"
    using is_head_HeadVal [OF assms(4)] by blast
  have f: "?e \<noteq> nil" "?e \<noteq> c" "?e \<noteq> up m c" "up m c \<noteq> nil" "c \<noteq> nil"
    using assms(1,3) h(2) by (auto simp: inv_k_def node_def)
  show ?thesis
  proof (cases "r = nil")
    case True
    show ?thesis
      using True f dc v
      by (simp add: PushItem_def alloc_def insertItem_def store_defs push_item_def Let_def
          name_of_def size_of_def fun_upd_twist)
  next
    case False
    then have ir: "iptr m r" using assms(5) by simp
    note i = inv_k_item [OF assms(1) ir]
    have g: "r \<noteq> ?e" "right m r \<noteq> nil" "right m r \<noteq> ?e"
      using ir i(7) by (auto simp: iptr_def node_def)
    show ?thesis
      using False f g dc v
      by (simp add: PushItem_def alloc_def insertItem_def store_defs push_item_def Let_def
          name_of_def size_of_def fun_upd_twist)
  qed
qed


lemma push_item_fields [simp]:
  "up (push_item r c m) = (up m)(fresh m := up m c, c := fresh m)"
  "down (push_item r c m) = (down m)(up m c := fresh m, fresh m := c)"
  "left (push_item r c m) = (if r = nil then (left m)(fresh m := fresh m)
                else (left m)(fresh m := r, right m r := fresh m))"
  "right (push_item r c m) = (if r = nil then (right m)(fresh m := fresh m)
                 else (right m)(r := fresh m, fresh m := right m r))"
  "column (push_item r c m) = (column m)(fresh m := c)"
  "ematrix (push_item r c m) = (ematrix m)(fresh m := True)"
  "fresh (push_item r c m) = Suc (fresh m)" "ostack (push_item r c m) = ostack m"
  "solutions (push_item r c m) = solutions m"
  by (simp_all add: push_item_def)

lemma push_item_kinds:
  assumes "node m c" "is_head m c"
  shows "is_head (push_item r c m) x = (x \<noteq> fresh m \<and> is_head m x)"
    "is_item (push_item r c m) x = (x = fresh m \<or> is_item m x)"
    "node (push_item r c m) x = (x = fresh m \<and> 2 \<le> fresh m \<or> node m x)"
    "name_of (push_item r c m) x = (if x = fresh m then [] else name_of m x)"
    "size_of (push_item r c m) x =
       (if x = c then size_of m c + 1 else if x = fresh m then 0 else size_of m x)"
  using assms head_not_item [OF assms(2)]
  by (auto simp: push_item_def is_head_def is_item_def node_def name_of_def size_of_def
      split: val.splits)

lemma push_item_ptrs:
  assumes "node m c" "is_head m c" "2 \<le> fresh m"
  shows "hptr m p \<Longrightarrow> hptr (push_item r c m) p" "iptr m p \<Longrightarrow> iptr (push_item r c m) p"
    "iptr (push_item r c m) (fresh m)" "node m p \<Longrightarrow> node (push_item r c m) p"
  using assms(3) by (auto simp: hptr_def iptr_def push_item_kinds [OF assms(1,2)] node_def)

lemma push_item_inv_k:
  assumes "inv_k m" "vrings m" "node m c" "is_head m c" "r = nil \<or> iptr m r"
    "Suc (fresh m) < 2 ^ 64"
  shows "inv_k (push_item r c m)"
proof -
  let ?m = "push_item r c m" and ?e = "fresh m"
  note h = inv_k_head [OF assms(1,3,4)]
  note kk = push_item_kinds [OF assms(3,4)]
  have f: "2 \<le> ?e" using assms(1) by (simp add: inv_k_def)
  note pp = push_item_ptrs [OF assms(3,4) f]
  have ne: "c \<noteq> ?e" "up m c \<noteq> ?e" "c \<noteq> mh" using assms(3) h(2) by (auto simp: node_def)
  have rr: "r \<noteq> nil \<Longrightarrow> iptr m r" using assms(5) by simp
  \<comment> \<open>the horizontal pointers of an old element\<close>
  have lr_head: "left ?m x = left m x \<and> right ?m x = right m x"
    if "hptr m x" for x
  proof -
    have "x \<noteq> ?e" using that f by (auto simp: hptr_def node_def)
    moreover have "r \<noteq> nil \<Longrightarrow> x \<noteq> r \<and> x \<noteq> right m r"
      using hptr_not_iptr [OF assms(1) that] rr inv_k_item(7) [OF assms(1)] by blast
    ultimately show ?thesis by auto
  qed
  have e: "elem_ok ?m x" if n: "node m x" for x
  proof -
    have ex: "elem_ok m x" using assms(1) n by (rule inv_k_elem)
    have xe: "x \<noteq> ?e" "x \<noteq> mh" using n by (auto simp: node_def)
    have old: "node m (up m x)" "node m (down m x)" "column m (up m x) = column m x"
      "column m (down m x) = column m x" "ematrix m x"
      using ex by (simp_all add: elem_ok_def)
    have une: "up m x \<noteq> ?e" "down m x \<noteq> ?e" using old by (auto simp: node_def)
    have u: "node ?m (up ?m x) \<and> column ?m (up ?m x) = column m x"
      using old une pp(4) xe h(4) f by (auto simp: kk)
    have d: "node ?m (down ?m x) \<and> column ?m (down ?m x) = column m x"
      using old une pp(4) xe h(7) f by (auto simp: kk)
    have cx: "column ?m x = column m x" "ematrix ?m x" using xe old by simp_all
    show ?thesis
    proof (cases "is_head m x")
      case True
      have hx: "hptr m x" using n True by (simp add: hptr_def)
      have "hptr m (left m x)" "hptr m (right m x)" "column m x = x"
        using ex True by (simp_all add: elem_ok_def)
      then have "hptr ?m (left ?m x)" "hptr ?m (right ?m x)" "column ?m x = x"
        using lr_head [OF hx] pp(1) cx by simp_all
      with True xe u d cx show ?thesis
        unfolding elem_ok_def by (simp add: kk del: push_item_fields)
    next
      case False
      then have ix: "iptr m x" using inv_k_not_head_item [OF assms(1) n] by simp
      note i = inv_k_item [OF assms(1) ix]
      have sx: "left m (right m x) = x" "right m (left m x) = x" using i(8) by (auto simp: sym_h_def)
      have lre: "left m x \<noteq> ?e" "right m x \<noteq> ?e" using i(6,7) by (auto simp: iptr_def node_def)
      have 1: "iptr ?m (left ?m x) \<and> iptr ?m (right ?m x)"
        using i(6,7) pp(2,3) xe by auto
      have 2: "sym_h ?m x"
      proof (cases "r = nil")
        case True
        with sx xe lre show ?thesis by (simp add: sym_h_def)
      next
        case rn: False
        note ir = inv_k_item [OF assms(1) rr [OF rn]]
        have sr: "left m (right m r) = r" using ir(8) by (simp add: sym_h_def)
        have re: "r \<noteq> ?e" "right m r \<noteq> ?e" using ir(7) rr [OF rn] by (auto simp: iptr_def node_def)
        have a: "left ?m (right ?m x) = x"
        proof (cases "x = r")
          case True
          with rn re show ?thesis by simp
        next
          case xr: False
          then have "right m x \<noteq> right m r" using sx sr by metis
          with rn xr xe lre sx show ?thesis by simp
        qed
        have b: "right ?m (left ?m x) = x"
        proof (cases "x = right m r")
          case True
          with rn re show ?thesis by simp
        next
          case xr: False
          then have "left m x \<noteq> r" using sx by metis
          with rn xr xe lre sx show ?thesis by simp
        qed
        from a b show ?thesis by (simp add: sym_h_def del: push_item_fields)
      qed
      have 3: "node ?m (column m x)" "is_head ?m (column m x)"
        using i(4,5) pp(4) by (auto simp: kk node_def)
      show ?thesis
        using False ix 1 2 3 u d cx xe unfolding elem_ok_def
        by (simp add: kk iptr_def del: push_item_fields)
    qed
  qed
  have ee: "elem_ok ?m ?e"
  proof -
    have "node ?m (up m c)" "node ?m c" using h(2) assms(3) pp(4) by simp_all
    moreover have "column ?m (up m c) = c" "column ?m c = c" using ne h(4,7) by simp_all
    moreover have "is_head ?m c" using assms(4) ne by (simp add: kk)
    moreover have "iptr ?m (left ?m ?e) \<and> iptr ?m (right ?m ?e) \<and> sym_h ?m ?e"
    proof (cases "r = nil")
      case True
      with pp(3) show ?thesis by (simp add: sym_h_def)
    next
      case rn: False
      note ir = inv_k_item [OF assms(1) rr [OF rn]]
      have re: "r \<noteq> ?e" "right m r \<noteq> ?e" using ir(7) rr [OF rn] by (auto simp: iptr_def node_def)
      have "iptr ?m r" "iptr ?m (right m r)" using rr [OF rn] ir(7) pp(2) by simp_all
      with rn re show ?thesis by (simp add: sym_h_def)
    qed
    ultimately show ?thesis
      using ne f unfolding elem_ok_def by (simp add: kk)
  qed
  have "\<forall>x. 2 \<le> x \<and> x < fresh ?m \<longrightarrow> elem_ok ?m x"
    using e ee by (auto simp: node_def less_Suc_eq)
  then have "list_all (elem_ok ?m) [2..<fresh ?m]" by (simp only: list_all_nodes)
  moreover have "hptr m mh" by (simp add: hptr_def)
  then have "left ?m mh = left m mh" "right ?m mh = right m mh"
    using lr_head [of mh] by simp_all
  then have "hptr ?m (left ?m mh)" "hptr ?m (right ?m mh)"
    using assms(1) pp(1) by (simp_all add: inv_k_def del: push_item_fields)
  moreover have "Value ?m mh = NoValue" using assms(1) ne f by (simp add: push_item_def inv_k_def)
  moreover have "fresh ?m = Suc (fresh m)" by simp
  ultimately show ?thesis using assms(6) f by (simp add: inv_k_def del: push_item_fields)
qed


lemma push_item_head_lr:
  assumes "inv_k m" "r = nil \<or> iptr m r" "hptr m x"
  shows "left (push_item r c m) x = left m x" "right (push_item r c m) x = right m x"
proof -
  have f: "2 \<le> fresh m" using assms(1) by (simp add: inv_k_def)
  have "x \<noteq> fresh m" using assms(3) f by (auto simp: hptr_def node_def)
  moreover have "r \<noteq> nil \<Longrightarrow> x \<noteq> r \<and> x \<noteq> right m r"
    using hptr_not_iptr [OF assms(1,3)] assms(2) inv_k_item(7) [OF assms(1)] by blast
  ultimately show "left (push_item r c m) x = left m x" "right (push_item r c m) x = right m x"
    by auto
qed

lemma push_item_hring:
  assumes "inv_k m" "hring m" "r = nil \<or> iptr m r" "hlist m = Some L"
  shows "hlist (push_item r c m) = Some L" "hring (push_item r c m)"
proof -
  let ?m = "push_item r c m"
  note mem = hlist_members [OF assms(1,4)]
  from hringD [OF assms(2)] assms(4) have sy: "\<forall>x\<in>set (mh # L). sym_h m x" by auto
  have hp: "hptr m x" if "x \<in> set (mh # L)" for x
    using that mem by (auto simp: hptr_def)
  have hn: "hptr m (left m x) \<and> hptr m (right m x)" if "x \<in> set (mh # L)" for x
  proof (cases "x = mh")
    case True
    with assms(1) show ?thesis by (simp add: inv_k_def)
  next
    case False
    with that mem have "node m x" "is_head m x" by auto
    from inv_k_head(5,6) [OF assms(1) this] show ?thesis by simp
  qed
  have lr: "left ?m x = left m x" "right ?m x = right m x" if "hptr m x" for x
    using push_item_head_lr [OF assms(1,3) that] by simp_all
  have "\<forall>a\<in>set L. right ?m a = right m a" using lr(2) hp by simp
  with assms(4) have "walk (right ?m) (fresh ?m) (right m mh) mh = Some L"
    unfolding hlist_def by (rule walk_extend) simp
  moreover have "right ?m mh = right m mh" using lr(2) [of mh] by (simp add: hptr_def)
  ultimately show h: "hlist ?m = Some L" by (simp add: hlist_def del: push_item_fields)
  have "sym_h ?m x" if x: "x \<in> set (mh # L)" for x
  proof -
    have "sym_h m x" using sy x by blast
    moreover have "left ?m (right m x) = left m (right m x)"
      "right ?m (left m x) = right m (left m x)"
      using lr hn [OF x] by simp_all
    ultimately show ?thesis unfolding sym_h_def lr [OF hp [OF x]] by simp
  qed
  with h show "hring ?m" by (simp add: hring_def list_all_iff del: push_item_fields)
qed

lemma push_item_vert_other:
  assumes "inv_k m" "node m c" "is_head m c" "node m x" "column m x \<noteq> c"
  shows "up (push_item r c m) x = up m x" "down (push_item r c m) x = down m x"
proof -
  note h = inv_k_head [OF assms(1-3)]
  have "x \<noteq> fresh m" using assms(4) by (simp add: node_def)
  moreover have "x \<noteq> c" "x \<noteq> up m c" using assms(5) h(4,7) by auto
  ultimately show "up (push_item r c m) x = up m x" "down (push_item r c m) x = down m x"
    by simp_all
qed

lemma push_item_items_other:
  assumes "inv_k m" "vrings m" "node m c" "is_head m c" "node m c'" "is_head m c'" "c' \<noteq> c"
  shows "items (push_item r c m) c' = items m c'" "vring (push_item r c m) c'"
proof -
  let ?m = "push_item r c m" and ?e = "fresh m"
  from vringsD [OF assms(2,5,6)] obtain Is where Is: "items m c' = Some Is"
    and sy: "\<forall>x\<in>set (c' # Is). sym_v m x" and sz: "size_of m c' = of_nat (length Is)" by blast
  note mem = items_members [OF assms(1,5,6) Is]
  note h' = inv_k_head [OF assms(1,5,6)]
  have old: "node m a \<and> column m a = c'" if "a \<in> set (c' # Is)" for a
    using that mem assms(5) h'(4) by (auto simp: iptr_def)
  have nb: "node m (up m a) \<and> column m (up m a) = c' \<and>
            node m (down m a) \<and> column m (down m a) = c'" if "a \<in> set (c' # Is)" for a
  proof -
    from old [OF that] have n: "node m a" and c: "column m a = c'" by simp_all
    from inv_k_elem [OF assms(1) n] c show ?thesis by (simp add: elem_ok_def)
  qed
  have dn: "down ?m a = down m a" "up ?m a = up m a" if a: "node m a" "column m a = c'" for a
    using push_item_vert_other [OF assms(1,3,4) a(1)] a(2) assms(7) by simp_all
  have "\<forall>a\<in>set Is. down ?m a = down m a" using dn(1) old by simp
  with Is have "walk (down ?m) (fresh ?m) (down m c') c' = Some Is"
    unfolding items_def by (rule walk_extend) simp
  moreover have "down ?m c' = down m c'" using dn(1) [of c'] old [of c'] by simp
  ultimately show it: "items ?m c' = items m c'"
    using Is by (simp add: items_def del: push_item_fields)
  have "sym_v ?m x" if x: "x \<in> set (c' # Is)" for x
  proof -
    have "sym_v m x" using sy x by blast
    moreover have "up ?m x = up m x" "down ?m x = down m x" using dn old [OF x] by simp_all
    moreover have "up ?m (down m x) = up m (down m x)" "down ?m (up m x) = down m (up m x)"
      using dn nb [OF x] by simp_all
    ultimately show ?thesis unfolding sym_v_def by simp
  qed
  moreover have "size_of ?m c' = of_nat (length Is)"
    using sz assms(5,7) by (simp add: push_item_kinds [OF assms(3,4)] node_def)
  ultimately show "vring ?m c'"
    using it Is by (simp add: vring_def list_all_iff del: push_item_fields)
qed

lemma push_item_items:
  assumes "inv_k m" "vrings m" "node m c" "is_head m c" "items m c = Some Is"
  shows "items (push_item r c m) c = Some (Is @ [fresh m])" "vring (push_item r c m) c"
proof -
  let ?m = "push_item r c m" and ?e = "fresh m"
  from vringsD [OF assms(2-4)] assms(5) have
    sy: "\<forall>x\<in>set (c # Is). sym_v m x" and sz: "size_of m c = of_nat (length Is)" by auto
  note p = itemsD [OF assms(5)]
  note mem = items_members [OF assms(1,3,4,5)]
  note cf = col_first [OF assms]
  have e: "?e \<notin> set (c # Is @ [])" using mem assms(3) by (auto simp: iptr_def node_def)
  have sy': "\<forall>x\<in>set (c # Is @ []). up m (down m x) = x \<and> down m (up m x) = x"
    using sy by (simp add: sym_v_def)
  have dc: "down m (up m c) = c" using sy by (simp add: sym_v_def)
  note ri = ring_insertion [of "down m" c Is "[]" "up m" "up m c" ?e,
      OF _ _ sy' _ e, simplified]
  have fd: "down ?m = (down m)(up m c := ?e, ?e := down m (up m c))" using dc by simp
  have fu: "up ?m = (up m)(?e := up m c, down m (up m c) := ?e)" using dc by simp
  have "path (down ?m) (down ?m c) (Is @ [?e]) c"
    unfolding fd using ri(1) p cf(2) by simp
  moreover have "c \<notin> set (Is @ [?e])" using p(2) assms(3) by (simp add: node_def)
  moreover have "\<forall>a\<in>set (Is @ [?e]). a < fresh ?m" using mem by (auto simp: iptr_def node_def)
  ultimately show it: "items ?m c = Some (Is @ [?e])" unfolding items_def by (rule walkI)
  have "\<forall>x\<in>set (c # Is @ [?e]). sym_v ?m x"
    unfolding sym_v_def fd fu using ri(2) p cf(2) by simp
  moreover have "size_of ?m c = of_nat (length (Is @ [?e]))"
    using sz by (simp add: push_item_kinds [OF assms(3,4)])
  ultimately show "vring ?m c"
    using it by (simp add: vring_def list_all_iff del: push_item_fields)
qed

lemma push_item_vrings:
  assumes "inv_k m" "vrings m" "node m c" "is_head m c"
  shows "vrings (push_item r c m)"
proof -
  let ?m = "push_item r c m" and ?e = "fresh m"
  from vringsD [OF assms(2-4)] obtain Is where Is: "items m c = Some Is" by blast
  have "vring ?m c'" if "node m c'" "is_head m c'" for c'
  proof (cases "c' = c")
    case True
    with push_item_items(2) [OF assms Is] show ?thesis by simp
  next
    case False
    with push_item_items_other(2) [OF assms that] show ?thesis by simp
  qed
  then have "is_head ?m x \<longrightarrow> vring ?m x" if "2 \<le> x" "x < Suc ?e" for x
    using that by (cases "x = ?e") (simp_all add: push_item_kinds [OF assms(3,4)] node_def)
  then show ?thesis unfolding vrings_def list_all_nodes by simp
qed

lemma push_item_full:
  assumes "inv_k m" "hring m" "vrings m" "full m" "node m c" "is_head m c"
    "r = nil \<or> iptr m r"
  shows "full (push_item r c m)"
proof -
  let ?m = "push_item r c m" and ?e = "fresh m"
  from hringD [OF assms(2)] obtain L where L: "hlist m = Some L" by blast
  note h = push_item_hring(1) [OF assms(1,2,7) L, of c]
  from vringsD [OF assms(3,5,6)] obtain Is where Is: "items m c = Some Is" by blast
  note it = push_item_items(1) [OF assms(1,3,5,6) Is, of r]
  have ce: "column ?m ?e = c" by simp
  have new: "item_in ?m ?e" unfolding item_in_def ce using it by simp
  have "item_in ?m x" if n: "node m x" and i: "is_item m x" for x
  proof -
    have ix: "iptr m x" using n i by (simp add: iptr_def)
    note ii = inv_k_item [OF assms(1) ix]
    have xe: "x \<noteq> ?e" using n by (simp add: node_def)
    have old: "item_in m x" using fullD(2) [OF assms(4) L n i] .
    have cx: "column ?m x = column m x" using xe by simp
    show ?thesis
    proof (cases "column m x = c")
      case True
      with old Is it show ?thesis unfolding item_in_def cx by simp
    next
      case False
      with push_item_items_other(1) [OF assms(1,3,5,6) ii(4,5), of r] old
      show ?thesis unfolding item_in_def cx by simp
    qed
  qed
  moreover have "x \<in> set L" if "node m x" "is_head m x" for x
    using fullD(1) [OF assms(4) L that] .
  ultimately have "(is_head ?m x \<longrightarrow> x \<in> set L) \<and> (is_item ?m x \<longrightarrow> item_in ?m x)"
    if "2 \<le> x" "x < Suc ?e" for x
    using that new
    by (cases "x = ?e") (simp_all add: push_item_kinds [OF assms(5,6)] node_def)
  then show ?thesis using h unfolding full_def list_all_nodes by simp
qed

lemma push_item_wfc:
  assumes "wfc m" "node m c" "is_head m c" "r = nil \<or> iptr m r" "Suc (fresh m) < 2 ^ 64"
  shows "wfc (push_item r c m)"
proof -
  from assms(1) have k: "inv_k m" and h: "hring m" and v: "vrings m" and f: "full m"
    by (simp_all add: wfc_def)
  from hringD [OF h] obtain L where L: "hlist m = Some L" by blast
  show ?thesis
    unfolding wfc_def
    using push_item_inv_k [OF k v assms(2-5)] push_item_hring(2) [OF k h assms(4) L]
      push_item_vrings [OF k v assms(2,3)] push_item_full [OF k h v f assms(2-4)] by simp
qed

subsection \<open>PushItem and the rows\<close>

lemma ring_rotations:
  assumes "path f (f r) ys r" "r \<notin> set ys" "x \<in> set ys"
  shows "\<exists>ks. path f (f x) ks x \<and> x \<notin> set ks \<and> mset (x # ks) = mset (r # ys)"
proof -
  from assms(3) obtain as bs where d: "ys = as @ x # bs" by (auto simp: in_set_conv_decomp)
  from path_rotate [of f r as x bs] assms(1,2) d
  have "path f (f x) (bs @ r # as) x \<and> x \<notin> set (bs @ r # as)" by simp
  moreover have "mset (x # bs @ r # as) = mset (r # ys)" using d by simp
  ultimately show ?thesis by blast
qed

lemma distinct_map_mset:
  assumes "mset xs = mset ys" "distinct (map f ys)"
  shows "distinct (map f xs)"
proof -
  have "mset (map f xs) = mset (map f ys)" using assms(1) by (metis mset_map)
  from mset_eq_imp_distinct_iff [OF this] assms(2) show ?thesis by simp
qed

lemma push_item_others_old:
  assumes "inv_k m" "iptr m x" "others m x = Some Js" "r \<notin> set (x # Js)"
  shows "others (push_item r c m) x = Some Js"
proof -
  let ?m = "push_item r c m" and ?e = "fresh m"
  have mem: "\<forall>a\<in>set (x # Js). iptr m a" using others_members [OF assms(1-3)] assms(2) by simp
  have rr: "right ?m a = right m a" if "a \<in> set (x # Js)" for a
  proof -
    have "a \<noteq> ?e" using mem that by (auto simp: iptr_def node_def)
    moreover have "a \<noteq> r" using that assms(4) by auto
    ultimately show ?thesis by simp
  qed
  then have "\<forall>a\<in>set Js. right ?m a = right m a" by simp
  with assms(3) have "walk (right ?m) (fresh ?m) (right m x) x = Some Js"
    unfolding others_def by (rule walk_extend) simp
  then show ?thesis using rr [of x] by (simp add: others_def del: push_item_fields)
qed

lemma push_item_others_row:
  assumes "inv_k m" "iptr m r" "others m r = Some Js"
  shows "others (push_item r c m) r = Some (fresh m # Js)"
proof -
  let ?m = "push_item r c m" and ?e = "fresh m"
  note p = othersD [OF assms(3)]
  have mem: "\<forall>a\<in>set (r # Js). iptr m a" using others_members [OF assms] assms(2) by simp
  have rn: "r \<noteq> nil" using assms(2) by (simp add: iptr_def node_def)
  have e: "?e \<notin> set (r # Js)" using mem by (auto simp: iptr_def node_def)
  have "path (right ?m) (right m r) Js r = path (right m) (right m r) Js r"
    using e p(2) rn by (intro path_cong) auto
  with p(1) have "path (right ?m) (right m r) Js r" by simp
  moreover have "right ?m r = ?e" "right ?m ?e = right m r" using rn e by auto
  ultimately have "path (right ?m) (right ?m r) (?e # Js) r" by simp
  moreover have "r \<notin> set (?e # Js)" using p(2) e by auto
  moreover have "\<forall>a\<in>set (?e # Js). a < fresh ?m" using mem by (auto simp: iptr_def node_def)
  ultimately show ?thesis unfolding others_def by (rule walkI)
qed

lemma push_item_row_new:
  assumes "inv_k m" "rows m" "iptr m r" "others m r = Some Js" "c \<notin> set (row_cols m r)"
    "x \<in> set (r # fresh m # Js)"
  shows "row (push_item r c m) x"
proof -
  let ?m = "push_item r c m" and ?e = "fresh m"
  note o = push_item_others_row [OF assms(1,3,4), of c]
  note p = othersD [OF o]
  have mem: "\<forall>a\<in>set (r # Js). iptr m a" using others_members [OF assms(1,3,4)] assms(3) by simp
  have e: "?e \<notin> set (r # Js)" using mem by (auto simp: iptr_def node_def)
  from rowsD [OF assms(2,3)] assms(4) have di: "distinct (map (column m) (r # Js))" by auto
  have meq: "map (column ?m) (r # Js) = map (column m) (r # Js)" using e by (intro map_cong) auto
  have ce: "column ?m ?e = c" by simp
  have "distinct (map (column ?m) (r # Js))" using di by (simp only: meq)
  moreover have "column ?m ?e \<notin> set (map (column ?m) (r # Js))"
    unfolding meq ce using assms(4,5) by (simp add: row_cols_def)
  ultimately have d2: "distinct (map (column ?m) (r # ?e # Js))"
    by (auto simp del: push_item_fields)
  show ?thesis
  proof (cases "x = r")
    case True
    with o d2 show ?thesis by (simp add: row_def del: push_item_fields)
  next
    case False
    with assms(6) have "x \<in> set (?e # Js)" by auto
    from ring_rotations [OF p(1,2) this] obtain ks where
      ks: "path (right ?m) (right ?m x) ks x" "x \<notin> set ks" "mset (x # ks) = mset (r # ?e # Js)"
      by blast
    have "set (x # ks) = set (r # ?e # Js)" using ks(3) by (rule mset_eq_setD)
    then have "set ks \<subseteq> set (r # ?e # Js)" by auto
    moreover have "\<forall>a\<in>set (r # ?e # Js). a < Suc ?e" using mem by (auto simp: iptr_def node_def)
    ultimately have "\<forall>a\<in>set ks. a < fresh ?m" by auto
    with ks(1,2) have "others ?m x = Some ks" unfolding others_def by (rule walkI)
    moreover have "distinct (map (column ?m) (x # ks))" using ks(3) d2 by (rule distinct_map_mset)
    ultimately show ?thesis by (simp add: row_def del: push_item_fields)
  qed
qed

lemma push_item_row_old:
  assumes "inv_k m" "rows m" "iptr m x" "r = nil \<or> iptr m r \<and> others m r = Some Js \<and> x \<notin> set (r # Js)"
  shows "row (push_item r c m) x"
proof -
  let ?m = "push_item r c m" and ?e = "fresh m"
  from rowsD [OF assms(2,3)] obtain Ks where
    Ks: "others m x = Some Ks" "distinct (map (column m) (x # Ks))" by blast
  have mem: "\<forall>a\<in>set (x # Ks). iptr m a" using others_members [OF assms(1,3) Ks(1)] assms(3) by simp
  have "r \<notin> set (x # Ks)"
  proof
    assume a: "r \<in> set (x # Ks)"
    then have "iptr m r" using mem by blast
    then have "r \<noteq> nil" by (simp add: iptr_def node_def)
    with assms(4) have Js: "others m r = Some Js" and xn: "x \<notin> set (r # Js)" by simp_all
    from xn a have "r \<in> set Ks" by auto
    from row_same_set [OF assms(1,3) Ks(1) this] Js have "set (r # Js) = set (x # Ks)" by auto
    with xn show False by auto
  qed
  from push_item_others_old [OF assms(1,3) Ks(1) this]
  have o: "others ?m x = Some Ks" .
  have "\<forall>a\<in>set (x # Ks). a \<noteq> ?e" using mem by (auto simp: iptr_def node_def)
  then have meq: "map (column ?m) (x # Ks) = map (column m) (x # Ks)" by (intro map_cong) auto
  have "distinct (map (column ?m) (x # Ks))" using Ks(2) by (simp only: meq)
  with o show ?thesis by (simp add: row_def del: push_item_fields)
qed

lemma push_item_rows:
  assumes "inv_k m" "rows m" "node m c" "is_head m c"
    "r = nil \<or> iptr m r \<and> c \<notin> set (row_cols m r)"
  shows "rows (push_item r c m)"
proof -
  let ?m = "push_item r c m" and ?e = "fresh m"
  have "row ?m x" if x: "x = ?e \<or> iptr m x" for x
  proof (cases "r = nil")
    case True
    show ?thesis
    proof (cases "x = ?e")
      case xe: True
      have "others ?m ?e = Some []" using True by (simp add: others_def)
      with xe show ?thesis by (simp add: row_def del: push_item_fields)
    next
      case False
      with x have "iptr m x" by simp
      from push_item_row_old [OF assms(1,2) this, of r] True show ?thesis by simp
    qed
  next
    case False
    with assms(5) have r: "iptr m r" "c \<notin> set (row_cols m r)" by simp_all
    from rowsD [OF assms(2) r(1)] obtain Js where Js: "others m r = Some Js" by blast
    show ?thesis
    proof (cases "x \<in> set (r # ?e # Js)")
      case True
      from push_item_row_new [OF assms(1,2) r(1) Js r(2) True] show ?thesis .
    next
      case xn: False
      with x have "iptr m x" by auto
      from push_item_row_old [OF assms(1,2) this, of r Js] r(1) Js xn show ?thesis by simp
    qed
  qed
  then have "is_item ?m x \<longrightarrow> row ?m x" if "2 \<le> x" "x < Suc ?e" for x
    using that by (cases "x = ?e") (simp_all add: push_item_kinds [OF assms(3,4)] node_def iptr_def)
  then show ?thesis unfolding rows_def list_all_nodes by simp
qed

lemma push_item_wf0:
  assumes "wf0 m" "node m c" "is_head m c" "r = nil \<or> iptr m r \<and> c \<notin> set (row_cols m r)"
    "Suc (fresh m) < 2 ^ 64"
  shows "wf0 (push_item r c m)"
proof -
  from assms(1) have c: "wfc m" and r: "rows m" by (simp_all add: wf0_def)
  then have k: "inv_k m" by (simp add: wfc_def)
  have "r = nil \<or> iptr m r" using assms(4) by blast
  from push_item_wfc [OF c assms(2,3) this assms(5)] push_item_rows [OF k r assms(2-4)]
  show ?thesis by (simp add: wf0_def)
qed

section \<open>Solve on constructed matrices\<close>

subsection \<open>From construction to search\<close>

lemma wf0_wf:
  assumes "wf0 m"
  shows "wf m"
proof -
  from assms have k: "inv_k m" and h: "hring m" and v: "vrings m" and f: "full m"
    and r: "rows m" by (simp_all add: wf0_def wfc_def)
  from hringD [OF h] obtain L where L: "hlist m = Some L" by blast
  note hm = hlist_members [OF k L]
  have "\<exists>Is. items m c = Some Is \<and>
          (\<forall>i\<in>set Is. \<exists>Js. others m i = Some Js \<and>
             (\<forall>j\<in>set Js. column m j \<in> set L \<and> item_in m j))" if c: "c \<in> set L" for c
  proof -
    from hm c have nc: "node m c" "is_head m c" by auto
    from vringsD [OF v nc] obtain Is where Is: "items m c = Some Is" by blast
    have "\<exists>Js. others m i = Some Js \<and> (\<forall>j\<in>set Js. column m j \<in> set L \<and> item_in m j)"
      if i: "i \<in> set Is" for i
    proof -
      have ii: "iptr m i" using items_members [OF k nc Is] i by blast
      from rowsD [OF r ii] obtain Js where Js: "others m i = Some Js" by blast
      have "column m j \<in> set L \<and> item_in m j" if "j \<in> set Js" for j
      proof -
        have ij: "iptr m j" using others_members [OF k ii Js] that by blast
        note jj = inv_k_item [OF k ij]
        have "column m j \<in> set L" using fullD(1) [OF f L jj(4,5)] .
        moreover have "item_in m j" using fullD(2) [OF f L] ij by (simp add: iptr_def)
        ultimately show ?thesis ..
      qed
      with Js show ?thesis by blast
    qed
    with Is show ?thesis by blast
  qed
  with L have "active m" by (rule activeI)
  with k h v r show ?thesis by (simp add: wf_def)
qed

lemma New_fields [simp]:
  "fresh New = 2" "left New mh = mh" "right New mh = mh" "Value New mh = NoValue"
  "solutions New = []" "ostack New = []"
  by (simp_all add: New_def Init_def zero_Matrix_def)

lemma New_wf0: "wf0 New"
proof -
  have "hlist New = Some []" by (simp add: hlist_def numeral_2_eq_2)
  then show ?thesis
    by (simp add: wf0_def wfc_def inv_k_def hring_def vrings_def full_def rows_def hptr_def
        sym_h_def)
qed

lemma size_unat:
  assumes "inv_k m" "vrings m" "node m c" "is_head m c"
  shows "\<exists>Is. items m c = Some Is \<and> unat (size_of m c) = length Is"
proof -
  from vringsD [OF assms(2-4)] obtain Is where Is: "items m c = Some Is"
    and sz: "size_of m c = of_nat (length Is)" by blast
  have "length Is \<le> fresh m - 2"
    using itemsD(3) [OF Is] items_members [OF assms(1,3,4) Is]
    by (intro length_le_bound2) (auto simp: iptr_def node_def)
  moreover have "fresh m < 2 ^ 64" using assms(1) by (simp add: inv_k_def)
  ultimately have "length Is < 2 ^ 64" by simp
  then have "unat (of_nat (length Is) :: 64 word) = length Is" by (simp add: unat_of_nat)
  with Is sz show ?thesis by simp
qed

subsection \<open>The construction calls\<close>

lemma call_PushHead:
  assumes "wfc m"
  shows "call (OpPushHead n) m = ok (RetElem (fresh m), push_head n m)"
proof -
  from assms have "inv_k m" "hring m" by (simp_all add: wfc_def)
  from PushHead_push_head [OF this] show ?thesis by (simp add: call_def)
qed

lemma call_PushItem:
  assumes "wfc m" "kind_ok m (OpPushItem r c)"
  shows "call (OpPushItem r c) m = ok (RetElem (fresh m), push_item r c m)"
proof -
  from assms(1) have "inv_k m" "vrings m" by (simp_all add: wfc_def)
  from PushItem_push_item [OF this, of c r] assms(2) show ?thesis by (simp add: call_def)
qed

lemma after_final_ok [simp]: "after (final (ok (r, m))) = m"
  by (simp add: after_def final_def ok_def bindE_def)

lemma call_kind_ok:
  assumes "wfc m" "kind_ok m c"
  shows "\<exists>r. call c m = ok (r, after (final (call c m)))" "wfc (after (final (call c m)))"
    "solutions (after (final (call c m))) = solutions m"
    "ostack (after (final (call c m))) = ostack m"
proof -
  have "(\<exists>r. call c m = ok (r, after (final (call c m)))) \<and> wfc (after (final (call c m))) \<and>
        solutions (after (final (call c m))) = solutions m \<and>
        ostack (after (final (call c m))) = ostack m"
  proof (cases c)
    case (OpPushHead n)
    with assms(2) have "Suc (fresh m) < 2 ^ 64" by simp
    from push_head_wfc [OF assms(1) this, of n] call_PushHead [OF assms(1), of n] OpPushHead
    show ?thesis by simp
  next
    case (OpPushItem r h)
    with assms(2) have k: "kind_ok m (OpPushItem r h)" by simp
    then have "node m h" "is_head m h" "r = nil \<or> iptr m r" "Suc (fresh m) < 2 ^ 64"
      by simp_all
    from push_item_wfc [OF assms(1) this] call_PushItem [OF assms(1) k] OpPushItem
    show ?thesis by simp
  next
    case OpSolve
    with assms(2) show ?thesis by simp
  qed
  then show "\<exists>r. call c m = ok (r, after (final (call c m)))" "wfc (after (final (call c m)))"
    "solutions (after (final (call c m))) = solutions m"
    "ostack (after (final (call c m))) = ostack m" by blast+
qed

lemma proper_kind_ok: "proper m c \<Longrightarrow> kind_ok m c"
  by (cases c) simp_all

lemma call_proper:
  assumes "wf0 m" "proper m c"
  shows "wf0 (after (final (call c m)))"
proof (cases c)
  case (OpPushHead n)
  from assms(1) have w: "wfc m" by (simp add: wf0_def)
  from assms(2) OpPushHead have "Suc (fresh m) < 2 ^ 64" by simp
  from push_head_wf0 [OF assms(1) this, of n] call_PushHead [OF w, of n] OpPushHead
  show ?thesis by simp
next
  case (OpPushItem r h)
  from assms(1) have w: "wfc m" by (simp add: wf0_def)
  from assms(2) OpPushItem have p: "proper m (OpPushItem r h)" by simp
  then have k: "kind_ok m (OpPushItem r h)" by simp
  from p have "node m h" "is_head m h" "r = nil \<or> iptr m r \<and> h \<notin> set (row_cols m r)"
    "Suc (fresh m) < 2 ^ 64" by auto
  from push_item_wf0 [OF assms(1) this] call_PushItem [OF w k] OpPushItem
  show ?thesis by simp
next
  case OpSolve
  with assms(2) show ?thesis by simp
qed

lemma run_Cons:
  "call c m = ok (r, m1) \<Longrightarrow> run cs m1 = ok (rs, m') \<Longrightarrow> run (c # cs) m = ok (r # rs, m')"
  by simp

lemma run_kind_ok:
  assumes "wfc m" "all_calls kind_ok cs m"
  shows "\<exists>rs m'. run cs m = ok (rs, m') \<and> wfc m' \<and> solutions m' = solutions m \<and>
           ostack m' = ostack m"
  using assms
proof (induction cs arbitrary: m)
  case Nil
  then show ?case by simp
next
  case (Cons c cs)
  let ?m = "after (final (call c m))"
  from Cons.prems have k: "kind_ok m c" and a: "all_calls kind_ok cs ?m" by simp_all
  note ck = call_kind_ok [OF Cons.prems(1) k]
  from ck(1) obtain r where r: "call c m = ok (r, ?m)" by blast
  from Cons.IH [OF ck(2) a] obtain rs m' where
    i: "run cs ?m = ok (rs, m')" "wfc m'" "solutions m' = solutions ?m" "ostack m' = ostack ?m"
    by blast
  from r i(1) have "run (c # cs) m = ok (r # rs, m')" by (rule run_Cons)
  with i(2-4) ck(3,4) show ?case by simp
qed

lemma run_proper:
  assumes "wf0 m" "all_calls proper cs m"
  shows "\<exists>rs m'. run cs m = ok (rs, m') \<and> wf0 m' \<and> solutions m' = solutions m \<and>
           ostack m' = ostack m"
  using assms
proof (induction cs arbitrary: m)
  case Nil
  then show ?case by simp
next
  case (Cons c cs)
  let ?m = "after (final (call c m))"
  from Cons.prems have p: "proper m c" and a: "all_calls proper cs ?m" by simp_all
  from Cons.prems(1) have w: "wfc m" by (simp add: wf0_def)
  note ck = call_kind_ok [OF w proper_kind_ok [OF p]]
  from ck(1) obtain r where r: "call c m = ok (r, ?m)" by blast
  from Cons.IH [OF call_proper [OF Cons.prems(1) p] a] obtain rs m' where
    i: "run cs ?m = ok (rs, m')" "wf0 m'" "solutions m' = solutions ?m" "ostack m' = ostack ?m"
    by blast
  from r i(1) have "run (c # cs) m = ok (r # rs, m')" by (rule run_Cons)
  with i(2-4) ck(3,4) show ?case by simp
qed

lemma built_run: "run cs New = ok (rs, m) \<Longrightarrow> built cs = m"
  by (simp add: built_def)


lemma built_proper:
  assumes "all_calls proper cs New"
  shows "wf (built cs)" "solutions (built cs) = []" "ostack (built cs) = []"
proof -
  from run_proper [OF New_wf0 assms] obtain rs m' where
    r: "run cs New = ok (rs, m')" "wf0 m'" "solutions m' = []" "ostack m' = []" by auto
  from built_run [OF r(1)] r wf0_wf [OF r(2)]
  show "wf (built cs)" "solutions (built cs) = []" "ostack (built cs) = []" by auto
qed

subsection \<open>Solve on a well-formed matrix\<close>

lemma Solve_wf:
  assumes "wf m" "hlist m = Some L"
  shows "\<exists>S. (\<forall>s. Solve (frame s [] m) = ok (s @ S, frame (s @ S) [] m)) \<and>
             (\<forall>sol\<in>set S. solution_for m [] L sol)"
proof -
  from search_correct [OF assms, of "[]"] obtain S where
    S: "\<forall>s. search_at None 0 (frame s [] m) = ok (frame (s @ S) [] m)"
      "\<forall>sol\<in>set S. solution_for m [] L sol" by auto
  have "Solve (frame s [] m) = ok (s @ S, frame (s @ S) [] m)" for s
    using S(1) by (simp add: Solve_def search_def)
  with S(2) show ?thesis by blast
qed

subsection \<open>The final state of a construction\<close>

lemma after_run_Cons:
  assumes "wfc m" "kind_ok m c" "all_calls kind_ok cs (after (final (call c m)))"
  shows "after (final (run (c # cs) m)) = after (final (run cs (after (final (call c m)))))"
proof -
  let ?m = "after (final (call c m))"
  note ck = call_kind_ok [OF assms(1,2)]
  from ck(1) obtain r where r: "call c m = ok (r, ?m)" by blast
  from run_kind_ok [OF ck(2) assms(3)] obtain rs m' where i: "run cs ?m = ok (rs, m')" by blast
  from r i have "run (c # cs) m = ok (r # rs, m')" by (rule run_Cons)
  with i show ?thesis by simp
qed

lemma call_names:
  assumes "wfc m" "kind_ok m c" "hlist m = Some L"
  shows "\<exists>L'. hlist (after (final (call c m))) = Some (L @ L') \<and>
           map (name_of (after (final (call c m)))) (L @ L') =
           map (name_of m) L @ pushed_names [c]"
proof -
  from assms(1) have k: "inv_k m" and h: "hring m" by (simp_all add: wfc_def)
  have old: "\<forall>x\<in>set L. x \<noteq> fresh m" using hlist_members [OF k assms(3)] by (auto simp: node_def)
  show ?thesis
  proof (cases c)
    case (OpPushHead n)
    have "map (name_of (push_head n m)) L = map (name_of m) L"
      using old by (intro map_cong) (auto simp: push_head_kinds)
    then have "map (name_of (push_head n m)) (L @ [fresh m]) = map (name_of m) L @ [n]"
      by (simp add: push_head_kinds)
    with push_head_hring(1) [OF k h assms(3), of n] call_PushHead [OF assms(1), of n] OpPushHead
    show ?thesis by simp
  next
    case (OpPushItem r hd)
    with assms(2) have ko: "kind_ok m (OpPushItem r hd)" by simp
    then have a: "node m hd" "is_head m hd" "r = nil \<or> iptr m r" by simp_all
    have "map (name_of (push_item r hd m)) L = map (name_of m) L"
      using old by (intro map_cong) (auto simp: push_item_kinds [OF a(1,2)])
    with push_item_hring(1) [OF k h a(3) assms(3), of hd] call_PushItem [OF assms(1) ko]
      OpPushItem
    show ?thesis by simp
  next
    case OpSolve
    with assms(2) show ?thesis by simp
  qed
qed

lemma pushed_names_Cons: "pushed_names (c # cs) = pushed_names [c] @ pushed_names cs"
  by (cases c) simp_all

lemma run_names:
  assumes "wfc m" "all_calls kind_ok cs m" "hlist m = Some L"
  shows "\<exists>L'. hlist (after (final (run cs m))) = Some (L @ L') \<and>
           map (name_of (after (final (run cs m)))) (L @ L') =
           map (name_of m) L @ pushed_names cs"
  using assms
proof (induction cs arbitrary: m L)
  case Nil
  then show ?case by simp
next
  case (Cons c cs)
  let ?m = "after (final (call c m))"
  from Cons.prems have k: "kind_ok m c" and a: "all_calls kind_ok cs ?m" by simp_all
  note ck = call_kind_ok [OF Cons.prems(1) k]
  from call_names [OF Cons.prems(1) k Cons.prems(3)] obtain L1 where
    L1: "hlist ?m = Some (L @ L1)"
      "map (name_of ?m) (L @ L1) = map (name_of m) L @ pushed_names [c]" by blast
  from Cons.IH [OF ck(2) a L1(1)] obtain L2 where
    L2: "hlist (after (final (run cs ?m))) = Some ((L @ L1) @ L2)"
      "map (name_of (after (final (run cs ?m)))) ((L @ L1) @ L2) =
       map (name_of ?m) (L @ L1) @ pushed_names cs" by blast
  have e: "after (final (run (c # cs) m)) = after (final (run cs ?m))"
    using Cons.prems(1) k a by (rule after_run_Cons)
  let ?M = "after (final (run cs ?m))"
  have "map (name_of ?M) (L @ (L1 @ L2)) = map (name_of ?m) (L @ L1) @ pushed_names cs"
    using L2(2) by (simp only: append_assoc)
  also have "\<dots> = (map (name_of m) L @ pushed_names [c]) @ pushed_names cs"
    by (simp only: L1(2))
  also have "\<dots> = map (name_of m) L @ pushed_names (c # cs)"
    using pushed_names_Cons [of c cs] by simp
  finally have "map (name_of ?M) (L @ (L1 @ L2)) = map (name_of m) L @ pushed_names (c # cs)" .
  moreover have "hlist ?M = Some (L @ (L1 @ L2))" using L2(1) by (simp only: append_assoc)
  ultimately show ?case unfolding e by blast
qed

lemma built_names:
  assumes "all_calls kind_ok cs New"
  shows "\<exists>L. hlist (built cs) = Some L \<and> map (name_of (built cs)) L = pushed_names cs"
proof -
  have "wfc New" using New_wf0 by (simp add: wf0_def)
  moreover have "hlist New = Some []" by (simp add: hlist_def numeral_2_eq_2)
  ultimately show ?thesis using run_names [of New cs "[]"] assms by (simp add: built_def)
qed

subsection \<open>A column without items\<close>








section \<open>Disciplined sequences of cover and uncover\<close>

lemma final_ok [simp]: "final (ok (r, m)) = ok m"
  by (simp add: final_def)

lemma covered_wf: "covered st m \<Longrightarrow> wf m"
  by (induction rule: covered.induct) (simp_all add: wf0_wf)

lemma cover_live:
  assumes "wf m" "live m c"
  shows "\<exists>m'. cover c m = ok m' \<and> wf m' \<and> uncover c m' = ok m"
proof -
  from assms(2) obtain L where L: "hlist m = Some L" "c \<in> set L"
    by (auto simp: live_def split: option.splits)
  from cover_wf [OF assms(1) L] obtain m' where
    c: "\<forall>s os. cover c (frame s os m) = ok (frame s os m')" and w: "wf m'"
    and co: "same_core m m'"
    and un: "\<forall>s os. uncover c (frame s os m') = ok (frame s os m)" by blast
  from co have e: "frame (solutions m') (ostack m') m = m" by (simp add: same_core_def frame_def)
  with un [rule_format, of "solutions m'" "ostack m'"] have "uncover c m' = ok m" by simp
  moreover have "cover c m = ok m'"
    using c [rule_format, of "solutions m'" "ostack m'"] e by simp
  ultimately show ?thesis using w by blast
qed

lemma steps_pending:
  assumes "covered st m" "pending st as m = Some st'"
  shows "\<exists>m'. steps as m = ok m' \<and> covered st' m'"
  using assms
proof (induction as arbitrary: st m)
  case Nil
  then show ?case by simp
next
  case (Cons a as)
  show ?case
  proof (cases a)
    case (Call c)
    with Cons.prems(2) have s: "st = []" and p: "proper m c"
      and r: "pending [] as (after (step (Call c) m)) = Some st'"
      by (simp_all split: if_splits)
    from Cons.prems(1) s have w0: "wf0 m" by (auto elim: covered.cases)
    then have w: "wfc m" by (simp add: wf0_def)
    from call_kind_ok(1) [OF w proper_kind_ok [OF p]] obtain x where
      x: "call c m = ok (x, after (final (call c m)))" by blast
    define m1 where "m1 = after (final (call c m))"
    have c1: "call c m = ok (x, m1)" using x by (simp only: m1_def)
    have s1: "step (Call c) m = ok m1" using c1 by simp
    have "covered [] m1" unfolding m1_def using call_proper [OF w0 p] by (rule covered_Nil)
    moreover have "pending [] as m1 = Some st'" using r s1 by simp
    ultimately obtain m' where "steps as m1 = ok m'" "covered st' m'"
      using Cons.IH by blast
    with s1 Call show ?thesis by simp
  next
    case (Cover c)
    with Cons.prems(2) have l: "live m c"
      and r: "pending (c # st) as (after (step (Cover c) m)) = Some st'"
      by (simp_all split: if_splits)
    from cover_live [OF covered_wf [OF Cons.prems(1)] l] obtain m1 where
      m1: "cover c m = ok m1" "wf m1" "uncover c m1 = ok m" by blast
    have "covered (c # st) m1" using Cons.prems(1) m1(2,3) by (rule covered_Cons)
    moreover have "pending (c # st) as m1 = Some st'" using r m1(1) by simp
    ultimately obtain m' where "steps as m1 = ok m'" "covered st' m'"
      using Cons.IH by blast
    with m1(1) Cover show ?thesis by simp
  next
    case (Uncover c)
    with Cons.prems(2) obtain st0 where s: "st = c # st0"
      and r: "pending st0 as (after (step (Uncover c) m)) = Some st'"
      by (auto split: list.splits if_splits)
    from Cons.prems(1) s obtain m0 where m0: "covered st0 m0" "uncover c m = ok m0"
      by (auto elim: covered.cases)
    have "pending st0 as m0 = Some st'" using r m0(2) by simp
    with m0(1) obtain m' where "steps as m0 = ok m'" "covered st' m'"
      using Cons.IH by blast
    with m0(2) Uncover show ?thesis by simp
  qed
qed

lemma steps_from_New:
  assumes "pending [] as New = Some st"
  shows "\<exists>m. steps as New = ok m \<and> covered st m"
  using covered_Nil [OF New_wf0] assms by (rule steps_pending)

lemma linked_symmetric:
  assumes "wf m" "node m x" "linked m x"
  shows "sym_h m x \<and> sym_v m x"
proof -
  note k = wfD(1) [OF assms(1)] and hr = wfD(2) [OF assms(1)] and vr = wfD(3) [OF assms(1)]
  show ?thesis
  proof (cases "is_head m x")
    case True
    with assms(3) have "live m x" by (simp add: linked_def)
    then obtain L where L: "hlist m = Some L" "x \<in> set L"
      by (auto simp: live_def split: option.splits)
    from hringD [OF hr] L have "sym_h m x" by auto
    moreover from vringsD [OF vr assms(2) True] have "sym_v m x" by auto
    ultimately show ?thesis ..
  next
    case False
    with assms(3) have i: "item_in m x" by (simp add: linked_def)
    have ix: "iptr m x" using inv_k_not_head_item [OF k assms(2)] False assms(2)
      by (simp add: iptr_def)
    from inv_k_item(8) [OF k ix] item_in_sym_v [OF k vr ix i] show ?thesis ..
  qed
qed

lemma wf0_linked:
  assumes "wf0 m" "node m x"
  shows "linked m x"
proof -
  from assms(1) have k: "inv_k m" and hr: "hring m" and f: "full m"
    by (simp_all add: wf0_def wfc_def)
  from hringD [OF hr] obtain L where L: "hlist m = Some L" by blast
  show ?thesis
  proof (cases "is_head m x")
    case True
    with fullD(1) [OF f L assms(2)] L show ?thesis by (simp add: linked_def live_def)
  next
    case False
    then have "is_item m x" using inv_k_not_head_item [OF k assms(2)] by (simp add: iptr_def)
    with fullD(2) [OF f L assms(2)] False show ?thesis by (simp add: linked_def)
  qed
qed

section \<open>Sizes and ring lengths\<close>

text \<open>
  Claim C7, as amended.  After a sequence of \<open>PushHead\<close>, \<open>PushItem\<close>, \<open>cover\<close> and
  \<open>uncover\<close> operations on a new matrix that follows the discipline of \<open>search\<close> (proper
  pushes while nothing is covered, \<open>cover\<close> of a header in the header ring, \<open>uncover\<close> of
  the column covered last), every operation has returned and the size of every column
  header, covered or not, is the number of items in its vertical ring.
\<close>

theorem size_counts_items:
  assumes "pending [] as New = Some st"
  shows "\<exists>m. steps as New = ok m \<and>
           (\<forall>c. node m c \<and> is_head m c \<longrightarrow>
                (\<exists>Is. items m c = Some Is \<and> unat (size_of m c) = length Is))"
proof -
  from steps_from_New [OF assms] obtain m where m: "steps as New = ok m" "covered st m"
    by blast
  note w = covered_wf [OF m(2)]
  have "\<exists>Is. items m c = Some Is \<and> unat (size_of m c) = length Is"
    if "node m c" "is_head m c" for c
    using wfD(1) [OF w] wfD(3) [OF w] that by (rule size_unat)
  with m(1) show ?thesis by blast
qed

section \<open>Ring symmetry\<close>

text \<open>
  Claim C8, as amended.  After a sequence of \<open>PushHead\<close>, \<open>PushItem\<close>, \<open>cover\<close> and
  \<open>uncover\<close> operations on a new matrix that follows the discipline of \<open>search\<close>, every
  operation has returned, the master element is linked to its horizontal neighbours in both
  directions, and every linked element \<open>e\<close> satisfies \<open>e.right.left == e\<close>,
  \<open>e.left.right == e\<close>, \<open>e.up.down == e\<close> and \<open>e.down.up == e\<close>.  When every cover has
  been undone, every element is linked and satisfies the four equations.
\<close>

theorem linked_elements_symmetric:
  assumes "pending [] as New = Some st"
  shows "\<exists>m. steps as New = ok m \<and> sym_h m mh \<and>
           (\<forall>x. node m x \<and> linked m x \<longrightarrow> sym_h m x \<and> sym_v m x) \<and>
           (st = [] \<longrightarrow> (\<forall>x. node m x \<longrightarrow> sym_h m x \<and> sym_v m x))"
proof -
  from steps_from_New [OF assms] obtain m where m: "steps as New = ok m" "covered st m"
    by blast
  note w = covered_wf [OF m(2)]
  have 1: "sym_h m mh" using hringD [OF wfD(2) [OF w]] by auto
  have 2: "sym_h m x \<and> sym_v m x" if "node m x" "linked m x" for x
    using w that by (rule linked_symmetric)
  have 3: "sym_h m x \<and> sym_v m x" if s: "st = []" and n: "node m x" for x
  proof -
    from m(2) s have "wf0 m" by (auto elim: covered.cases)
    from wf0_linked [OF this n] show ?thesis using 2 n by blast
  qed
  from m(1) 1 2 3 show ?thesis by blast
qed
section \<open>Column selection on well-formed matrices\<close>

text \<open>
  Where sizes count the items of the vertical rings no size is \<open>2^64 - 1\<close>, and \<open>getColumn\<close>
  returns the first header of minimum size whenever a header is live.
\<close>

lemma getColumn_wf:
  assumes "inv_k m" "vrings m" "hlist m = Some L" "L \<noteq> []"
  shows "\<exists>c pre post. getColumn m = ok c \<and> L = pre @ c # post \<and>
           (\<forall>x\<in>set pre. size_of m c < size_of m x) \<and>
           (\<forall>x\<in>set post. size_of m c \<le> size_of m x)"
proof -
  note mem = hlist_members [OF assms(1,3)]
  have 1: "\<forall>a\<in>set L. a \<noteq> nil \<and> ematrix m a \<and> is_head m a"
    using mem inv_k_head(1,9) [OF assms(1)] by simp
  from assms(4) obtain a where a: "a \<in> set L" by (cases L) auto
  then have "size_of m a \<noteq> - 1" using size_not_max [OF assms(1,2)] mem by simp
  with a have 2: "\<exists>a\<in>set L. size_of m a \<noteq> - 1" by blast
  from assms(3) 1 2 show ?thesis by (rule getColumn_first_minimum)
qed
section \<open>Solve on constructed matrices: the claims\<close>

lemma full_frame [simp]: "full (frame s os m) = full m"
  by (simp add: full_def cong: option.case_cong)

lemma wfc_frame [simp]: "wfc (frame s os m) = wfc m"
  by (simp add: wfc_def hring_def cong: option.case_cong)

lemma solutions_update_frame: "ostack m = [] \<Longrightarrow> m\<lparr>solutions := s\<rparr> = frame s [] m"
  by (simp add: frame_def)

lemma all_calls_proper: "all_calls proper cs m \<Longrightarrow> all_calls kind_ok cs m"
  by (induction cs arbitrary: m) (simp_all add: proper_kind_ok)

lemma row_string_names: "row_string m r = join_names (map (name_of m) (row_cols m r))"
  by (simp add: row_string_def row_cols_def comp_def)

lemma solution_for_names:
  assumes "solution_for m [] L sol"
  shows "\<exists>nss. sol = map join_names nss \<and> mset (concat nss) = mset (map (name_of m) L)"
proof -
  from assms obtain rs where rs: "sol = map (row_string m) rs"
    "mset (concat (map (row_cols m) rs)) = mset L" by (auto simp: solution_for_def)
  let ?nss = "map (\<lambda>r. map (name_of m) (row_cols m r)) rs"
  have "sol = map join_names ?nss" using rs(1) by (simp add: row_string_names comp_def)
  moreover have "concat ?nss = map (name_of m) (concat (map (row_cols m) rs))"
    by (simp add: map_concat comp_def)
  then have "mset (concat ?nss) = mset (map (name_of m) L)"
    using rs(2) by (metis mset_map)
  ultimately show ?thesis by blast
qed

subsection \<open>A column without items\<close>


subsection \<open>The matrix after Solve\<close>

text \<open>
  Claim C4, as amended.  Let a matrix be built by proper \<open>PushHead\<close> and \<open>PushItem\<close>
  calls: no \<open>PushItem\<close> adds to a row an item under a column in which the row already has
  one.  Then \<open>Solve\<close> returns and leaves every field of every element (all up, down, left
  and right links, every column pointer, every header's name and size) as it was before the
  call; only the recorded solutions grow, whatever solutions \<open>s\<close> were recorded before.
\<close>

theorem Solve_restores_matrix:
  assumes "all_calls proper cs New"
  shows "\<exists>S. Solve ((built cs)\<lparr>solutions := s\<rparr>) = ok (s @ S, (built cs)\<lparr>solutions := s @ S\<rparr>)"
proof -
  note b = built_proper [OF assms]
  from hringD [OF wfD(2) [OF b(1)]] obtain L where L: "hlist (built cs) = Some L" by blast
  from Solve_wf [OF b(1) L] obtain S where
    S: "\<forall>s. Solve (frame s [] (built cs)) = ok (s @ S, frame (s @ S) [] (built cs))" by blast
  have "(built cs)\<lparr>solutions := t\<rparr> = frame t [] (built cs)" for t
    using b(3) by (rule solutions_update_frame)
  with S show ?thesis by simp
qed

subsection \<open>Solve called twice\<close>

text \<open>
  Claim C3, as amended.  On a matrix built by proper \<open>PushHead\<close> and \<open>PushItem\<close> calls,
  whatever solutions \<open>s\<close> were recorded before, a first \<open>Solve\<close> returns \<open>s\<close> followed by
  the solutions \<open>S\<close> it finds, and a second \<open>Solve\<close> right after it finds the same \<open>S\<close>
  and returns \<open>s\<close>, \<open>S\<close> and \<open>S\<close> again: the two calls return the same set of solutions.
\<close>

theorem Solve_twice_same_set:
  assumes "all_calls proper cs New"
  shows "\<exists>S m1 m2. Solve ((built cs)\<lparr>solutions := s\<rparr>) = ok (s @ S, m1) \<and>
           Solve m1 = ok (s @ S @ S, m2) \<and> set (s @ S @ S) = set (s @ S)"
proof -
  note b = built_proper [OF assms]
  from hringD [OF wfD(2) [OF b(1)]] obtain L where L: "hlist (built cs) = Some L" by blast
  from Solve_wf [OF b(1) L] obtain S where
    S: "\<forall>s. Solve (frame s [] (built cs)) = ok (s @ S, frame (s @ S) [] (built cs))" by blast
  have e: "(built cs)\<lparr>solutions := s\<rparr> = frame s [] (built cs)"
    using b(3) by (rule solutions_update_frame)
  have 1: "Solve ((built cs)\<lparr>solutions := s\<rparr>) = ok (s @ S, frame (s @ S) [] (built cs))"
    unfolding e using S by simp
  have 2: "Solve (frame (s @ S) [] (built cs)) = ok (s @ S @ S, frame (s @ S @ S) [] (built cs))"
    using S [rule_format, of "s @ S"] by simp
  have 3: "set (s @ S @ S) = set (s @ S)" by auto
  from 1 2 3 show ?thesis by blast
qed

subsection \<open>Solutions partition the columns\<close>

text \<open>
  Claim C1, as amended.  Let a matrix be built by proper \<open>PushHead\<close> and \<open>PushItem\<close>
  calls: no \<open>PushItem\<close> adds to a row an item under a column in which the row already has
  one.  Then \<open>Solve\<close> returns, and every solution it returns is made of one string per
  chosen row, the names of the row's columns joined by spaces, such that the names of all
  rows of the solution together are exactly the names given to \<open>PushHead\<close>, each as often
  as it was pushed: every pushed column occurs in exactly one row of the solution.
\<close>

theorem Solve_solutions_partition:
  assumes "all_calls proper cs New"
  shows "\<exists>S m'. Solve (built cs) = ok (S, m') \<and>
           (\<forall>sol\<in>set S. \<exists>nss. sol = map join_names nss \<and>
                             mset (concat nss) = mset (pushed_names cs))"
proof -
  note b = built_proper [OF assms]
  have "all_calls kind_ok cs New" using assms by (rule all_calls_proper)
  from built_names [OF this] obtain L where L: "hlist (built cs) = Some L"
    "map (name_of (built cs)) L = pushed_names cs" by blast
  from Solve_wf [OF b(1) L(1)] obtain S where
    S: "\<forall>s. Solve (frame s [] (built cs)) = ok (s @ S, frame (s @ S) [] (built cs))"
      "\<forall>sol\<in>set S. solution_for (built cs) [] L sol" by blast
  have "frame [] [] (built cs) = built cs" using frame_self [of "built cs"] b(2,3) by simp
  with S(1) [rule_format, of "[]"] have "Solve (built cs) = ok (S, frame S [] (built cs))"
    by simp
  moreover have "\<exists>nss. sol = map join_names nss \<and> mset (concat nss) = mset (pushed_names cs)"
    if "sol \<in> set S" for sol
    using solution_for_names [of "built cs" L sol] S(2) that L(2) by simp
  ultimately show ?thesis by blast
qed
section \<open>The claims on concrete matrices\<close>

lemmas build_eval = witness_defs eval_defs row_cols_def node_def iptr_def is_item_def live_def



theorem Solve_restores_matrix_witness:
  "\<exists>S. Solve (built [OpPushHead ''A'', OpPushHead ''B'', OpPushItem 0 2, OpPushItem 4 3]) =
     ok (S, (built [OpPushHead ''A'', OpPushHead ''B'', OpPushItem 0 2, OpPushItem 4 3])
              \<lparr>solutions := S\<rparr>)"
proof -
  let ?cs = "[OpPushHead ''A'', OpPushHead ''B'', OpPushItem 0 2, OpPushItem 4 3]"
  have h: "all_calls proper ?cs New" by (simp add: build_eval)
  have s: "(built ?cs)\<lparr>solutions := []\<rparr> = built ?cs" by (simp add: build_eval)
  from Solve_restores_matrix [OF h, of "[]"] show ?thesis unfolding s by simp
qed

text \<open>
  Claim C4 as stated fails on a matrix with a row that has two items in one column: the row
  is unlinked from column \<open>A\<close> once by \<open>cover\<close> and relinked twice by \<open>uncover\<close> of its two
  items, so \<open>Solve\<close> leaves the size of \<open>A\<close> at 3 where it was 2.
\<close>

theorem Solve_restores_matrix_counterexample:
  "size_of (built [OpPushHead ''A'', OpPushItem 0 2, OpPushItem 3 2]) 2 = 2 \<and>
   size_of (after (final (Solve (built [OpPushHead ''A'', OpPushItem 0 2, OpPushItem 3 2])))) 2
     = 3"
  by (simp add: build_eval)

theorem Solve_twice_same_set_witness:
  "\<exists>S m1 m2. Solve (built [OpPushHead ''A'', OpPushItem 0 2]) = ok (S, m1) \<and>
     Solve m1 = ok (S @ S, m2) \<and> set (S @ S) = set S"
proof -
  let ?cs = "[OpPushHead ''A'', OpPushItem 0 2]"
  have h: "all_calls proper ?cs New" by (simp add: build_eval)
  have s: "(built ?cs)\<lparr>solutions := []\<rparr> = built ?cs" by (simp add: build_eval)
  from Solve_twice_same_set [OF h, of "[]"] show ?thesis unfolding s by simp
qed

text \<open>
  Claim C3 as stated fails on a matrix with a row that has two items in one column: the first
  \<open>Solve\<close> leaves the rings and sizes changed, and the second \<open>Solve\<close> finds and returns a
  solution, \<open>[''B A A'']\<close>, that the first did not return.
\<close>

theorem Solve_twice_same_set_counterexample:
  "returned (Solve (built [OpPushHead ''A'', OpPushHead ''B'', OpPushItem 0 3, OpPushItem 0 2,
      OpPushItem 5 3, OpPushItem 6 2])) = ok [[''A B A'', ''B''], [''A A B'']] \<and>
   returned (Solve (after (final (Solve (built [OpPushHead ''A'', OpPushHead ''B'',
      OpPushItem 0 3, OpPushItem 0 2, OpPushItem 5 3, OpPushItem 6 2]))))) =
     ok [[''A B A'', ''B''], [''A A B''], [''B A A'']]"
  by (simp add: build_eval)

theorem Solve_solutions_partition_witness:
  "returned (Solve (built [OpPushHead ''A'', OpPushHead ''B'', OpPushItem 0 2, OpPushItem 4 3]))
     = ok [[''A B'']] \<and>
   (\<exists>S m'. Solve (built [OpPushHead ''A'', OpPushHead ''B'', OpPushItem 0 2, OpPushItem 4 3])
       = ok (S, m') \<and>
     (\<forall>sol\<in>set S. \<exists>nss. sol = map join_names nss \<and> mset (concat nss) = mset [''A'', ''B'']))"
proof -
  let ?cs = "[OpPushHead ''A'', OpPushHead ''B'', OpPushItem 0 2, OpPushItem 4 3]"
  have h: "all_calls proper ?cs New" by (simp add: build_eval)
  have r: "returned (Solve (built ?cs)) = ok [[''A B'']]" by (simp add: build_eval)
  from Solve_solutions_partition [OF h] r show ?thesis by simp
qed

text \<open>
  Claim C1 as stated fails on a matrix with a row that has two items in one column: the
  string of that row names the column twice.
\<close>

theorem Solve_solutions_partition_counterexample:
  "returned (Solve (built [OpPushHead ''A'', OpPushItem 0 2, OpPushItem 3 2])) =
     ok [[''A A''], [''A A'']]"
  by (simp add: build_eval)

text \<open>
  Claim C6 as stated fails when the search enters a row through an element that is not the
  first of the row.  The row below is pushed under \<open>A\<close> and then \<open>B\<close>, and a second row is
  pushed under \<open>A\<close>; \<open>Solve\<close> selects \<open>B\<close>, the smaller column, chooses the row through its
  element in \<open>B\<close> and records \<open>''B A''\<close>, while the string that starts at the first
  element of the row is \<open>''A B''\<close>.
\<close>

theorem recorded_solution_strings_counterexample:
  "returned (run [OpPushHead ''A'', OpPushHead ''B'', OpPushItem 0 2, OpPushItem 4 3,
      OpPushItem 0 2, OpSolve] New) =
     ok [RetElem 2, RetElem 3, RetElem 4, RetElem 5, RetElem 6, RetSols [[''B A'']]] \<and>
   row_string (built [OpPushHead ''A'', OpPushHead ''B'', OpPushItem 0 2, OpPushItem 4 3,
      OpPushItem 0 2]) 4 = ''A B''"
  by (simp add: build_eval)

theorem size_counts_items_witness:
  "\<exists>m. steps [Call (OpPushHead ''A''), Call (OpPushHead ''B''), Call (OpPushItem 0 2),
      Call (OpPushItem 4 3), Cover 2, Uncover 2] New = ok m \<and>
     (\<forall>c. node m c \<and> is_head m c \<longrightarrow>
          (\<exists>Is. items m c = Some Is \<and> unat (size_of m c) = length Is))"
proof -
  have "pending [] [Call (OpPushHead ''A''), Call (OpPushHead ''B''), Call (OpPushItem 0 2),
      Call (OpPushItem 4 3), Cover 2, Uncover 2] New = Some []"
    by (simp add: build_eval)
  then show ?thesis by (rule size_counts_items)
qed

text \<open>
  Claim C7 as stated fails in two ways.  An \<open>uncover\<close> that undoes no \<open>cover\<close> counts
  items that were never taken out: on the matrix with the one row \<open>A B\<close>, \<open>uncover(A)\<close>
  increments the size of \<open>B\<close> to 2 while the ring of \<open>B\<close> still holds one item.  And on
  a matrix with a row that has two items in column \<open>A\<close>, the covers and uncovers that
  \<open>Solve\<close> performs leave the size of \<open>A\<close> at 3 while its ring holds the two items.
\<close>

theorem size_counts_items_counterexample:
  "steps [Call (OpPushHead ''A''), Call (OpPushHead ''B''), Call (OpPushItem 0 2),
      Call (OpPushItem 4 3), Uncover 2] New =
     ok (after (steps [Call (OpPushHead ''A''), Call (OpPushHead ''B''), Call (OpPushItem 0 2),
      Call (OpPushItem 4 3), Uncover 2] New)) \<and>
   size_of (after (steps [Call (OpPushHead ''A''), Call (OpPushHead ''B''),
      Call (OpPushItem 0 2), Call (OpPushItem 4 3), Uncover 2] New)) 3 = 2 \<and>
   items (after (steps [Call (OpPushHead ''A''), Call (OpPushHead ''B''),
      Call (OpPushItem 0 2), Call (OpPushItem 4 3), Uncover 2] New)) 3 = Some [5] \<and>
   size_of (after (final (Solve (built [OpPushHead ''A'', OpPushItem 0 2, OpPushItem 3 2])))) 2
     = 3 \<and>
   items (after (final (Solve (built [OpPushHead ''A'', OpPushItem 0 2, OpPushItem 3 2])))) 2
     = Some [3, 4]"
  by (simp add: build_eval)

theorem linked_elements_symmetric_witness:
  "\<exists>m. steps [Call (OpPushHead ''A''), Call (OpPushHead ''B''), Call (OpPushItem 0 2),
      Call (OpPushItem 4 3), Cover 3, Uncover 3] New = ok m \<and> sym_h m mh \<and>
     (\<forall>x. node m x \<longrightarrow> sym_h m x \<and> sym_v m x)"
proof -
  have "pending [] [Call (OpPushHead ''A''), Call (OpPushHead ''B''), Call (OpPushItem 0 2),
      Call (OpPushItem 4 3), Cover 3, Uncover 3] New = Some []"
    by (simp add: build_eval)
  from linked_elements_symmetric [OF this] show ?thesis by auto
qed

text \<open>
  Claim C8 as stated fails in two ways.  After \<open>cover(A)\<close> the covered header \<open>A\<close> still
  points to its old neighbours, which no longer point back.  And when \<open>uncover\<close> is not
  given the column covered last, even the master element loses the symmetry: after
  \<open>cover(B)\<close>, \<open>cover(A)\<close>, \<open>uncover(B)\<close> its right neighbour is itself and its left
  neighbour is \<open>B\<close>.
\<close>

theorem linked_elements_symmetric_counterexample:
  "steps [Call (OpPushHead ''A''), Call (OpPushHead ''B''), Cover 2] New =
     ok (after (steps [Call (OpPushHead ''A''), Call (OpPushHead ''B''), Cover 2] New)) \<and>
   \<not> sym_h (after (steps [Call (OpPushHead ''A''), Call (OpPushHead ''B''), Cover 2] New)) 2 \<and>
   steps [Call (OpPushHead ''A''), Call (OpPushHead ''B''), Cover 3, Cover 2, Uncover 3] New =
     ok (after (steps [Call (OpPushHead ''A''), Call (OpPushHead ''B''), Cover 3, Cover 2,
       Uncover 3] New)) \<and>
   \<not> sym_h (after (steps [Call (OpPushHead ''A''), Call (OpPushHead ''B''), Cover 3, Cover 2,
       Uncover 3] New)) mh"
  by (simp add: build_eval sym_h_def)

end
